theory Spec2Isabelle
  imports Main "HOL-Library.Multiset" "HOL-Library.Word"
begin

unbundle bit_operations_syntax

section \<open>Assignment strategies (sharding-strategy.ts)\<close>

text \<open>
  JavaScript numbers are modelled as mathematical integers: every number the strategies
  compute with (array positions, shard counts, file sizes in bytes, durations in
  milliseconds and their sums) is an integer far below \<open>2 ^ 53\<close>, where the arithmetic of
  doubles is exact. The one non-integer value that can arise is \<open>NaN\<close>, from \<open>x % 0\<close>;
  it is the value \<open>None\<close> of \<open>js_rem\<close>.
\<close>

text \<open>\<open>interface ShardInfo\<close>; the field \<open>total\<close> is written \<open>total'\<close>.\<close>

record ShardInfo =
  index :: int
  total' :: int

datatype js_error = TypeError

text \<open>
  The \<open>%\<close> operator on integer-valued numbers: the result has the sign of the dividend,
  and \<open>a % 0\<close> is \<open>NaN\<close>. A comparison \<open>NaN === v\<close> is false for every \<open>v\<close>.
\<close>

definition js_rem :: "int \<Rightarrow> int \<Rightarrow> int option" where
  "js_rem a b = (if b = 0 then None else Some (sgn a * (\<bar>a\<bar> mod \<bar>b\<bar>)))"

text \<open>\<open>xs.filter((x, i) => P x i)\<close>: the callback sees the element and its 0-based position.\<close>

definition filter_indexed :: "('a \<Rightarrow> nat \<Rightarrow> bool) \<Rightarrow> 'a list \<Rightarrow> 'a list" where
  "filter_indexed P xs = map fst (filter (\<lambda>(x, i). P x i) (zip xs [0..<length xs]))"

subsection \<open>RoundRobinStrategy\<close>

definition RoundRobin_distributeTests :: "string list \<Rightarrow> ShardInfo \<Rightarrow> string list" where
  "RoundRobin_distributeTests testPaths shardInfo =
     filter_indexed (\<lambda>_ i. js_rem (int i) (total' shardInfo) = Some (index shardInfo - 1)) testPaths"

subsection \<open>HashBasedStrategy\<close>

text \<open>
  \<open>crypto.createHash('md5')\<close> is a library function: it is a parameter \<open>md5\<close> of the model,
  a function from the path to the 128-bit digest. \<open>digest('hex')\<close> renders the digest as 32
  lower-case hexadecimal characters, most significant nibble first.
\<close>

definition hexchar :: "nat \<Rightarrow> char" where
  "hexchar n = ''0123456789abcdef'' ! (n mod 16)"

definition hex_digest :: "128 word \<Rightarrow> string" where
  "hex_digest w = map (\<lambda>k. hexchar (unat (drop_bit (4 * (31 - k)) w AND 15))) [0..<32]"

definition hexval :: "char \<Rightarrow> nat option" where
  "hexval c =
     (let n = of_char c :: nat in
      if 48 \<le> n \<and> n \<le> 57 then Some (n - 48)
      else if 97 \<le> n \<and> n \<le> 102 then Some (n - 87)
      else if 65 \<le> n \<and> n \<le> 70 then Some (n - 55)
      else None)"

text \<open>
  \<open>parseInt(s, 16)\<close> reads the longest prefix of hexadecimal digits and is \<open>NaN\<close> (here
  \<open>None\<close>) when that prefix is empty. (Its handling of leading white space, of a sign and
  of a \<open>0x\<close> prefix is left out: the argument is always a prefix of a hex digest.)
\<close>

definition parseInt16 :: "string \<Rightarrow> nat option" where
  "parseInt16 s =
     (let ds = takeWhile (\<lambda>c. hexval c \<noteq> None) s in
      if ds = [] then None
      else Some (foldl (\<lambda>acc c. 16 * acc + (case hexval c of Some v \<Rightarrow> v | None \<Rightarrow> 0)) 0 ds))"

definition hashNum :: "(string \<Rightarrow> 128 word) \<Rightarrow> string \<Rightarrow> nat option" where
  "hashNum md5 path = parseInt16 (take 8 (hex_digest (md5 path)))"

definition hash_selects :: "(string \<Rightarrow> 128 word) \<Rightarrow> ShardInfo \<Rightarrow> string \<Rightarrow> bool" where
  "hash_selects md5 shardInfo path =
     (case hashNum md5 path of
        None \<Rightarrow> False
      | Some h \<Rightarrow> js_rem (int h) (total' shardInfo) = Some (index shardInfo - 1))"

definition HashBased_distributeTests ::
  "(string \<Rightarrow> 128 word) \<Rightarrow> string list \<Rightarrow> ShardInfo \<Rightarrow> string list" where
  "HashBased_distributeTests md5 testPaths shardInfo = filter (hash_selects md5 shardInfo) testPaths"

subsection \<open>FileSizeStrategy and SmartStrategy\<close>

text \<open>
  The two classes run the same greedy loop over \<open>{path, size}\<close> and \<open>{path, duration}\<close>
  objects; only the cost differs. The loop is modelled once, over pairs of a path and its
  cost. One accumulator per shard: \<open>{ paths: string[]; totalSize: number }\<close>.
\<close>

record shard_acc =
  paths :: "string list"
  totalSize :: int

text \<open>
  \<open>shards.reduce((min, shard, index) => shard.totalSize < shards[min].totalSize ? index : min, 0)\<close>.
  On an empty array \<open>reduce\<close> returns the initial value \<open>0\<close> without calling the callback.
\<close>

definition minShard :: "shard_acc list \<Rightarrow> nat" where
  "minShard shards =
     foldl (\<lambda>min i. if totalSize (shards ! i) < totalSize (shards ! min) then i else min)
       0 [0..<length shards]"

text \<open>
  The \<open>for (const file of ...)\<close> loop. \<open>shards[minShard].paths.push(...)\<close> throws a
  \<open>TypeError\<close> when \<open>shards[minShard]\<close> is \<open>undefined\<close>, which happens exactly when the
  array of shards is empty.
\<close>

fun assign_loop :: "(string \<times> int) list \<Rightarrow> shard_acc list \<Rightarrow> js_error + shard_acc list" where
  "assign_loop [] shards = Inr shards"
| "assign_loop ((path, cost) # files) shards =
     (let m = minShard shards in
      if m < length shards
      then assign_loop files
             (shards[m := \<lparr>paths = paths (shards ! m) @ [path],
                           totalSize = totalSize (shards ! m) + cost\<rparr>])
      else Inl TypeError)"

text \<open>
  \<open>sort((a, b) => b.size - a.size)\<close> is a stable sort by descending cost; \<open>sort_key\<close> is
  a stable insertion sort. \<open>Array.from({ length: total }, ...)\<close> has \<open>total\<close> elements, none
  when \<open>total \<le> 0\<close>. The final \<open>shards[index - 1].paths\<close> throws a \<open>TypeError\<close> when
  \<open>index - 1\<close> is not a position of the array.
\<close>

definition greedy_distribute :: "(string \<times> int) list \<Rightarrow> ShardInfo \<Rightarrow> js_error + string list" where
  "greedy_distribute files shardInfo =
     (let sorted_files = sort_key (\<lambda>f. - snd f) files;
          shards0 = replicate (nat (total' shardInfo)) \<lparr>paths = [], totalSize = 0\<rparr>
      in case assign_loop sorted_files shards0 of
           Inl e \<Rightarrow> Inl e
         | Inr shards \<Rightarrow>
             if 1 \<le> index shardInfo \<and> index shardInfo \<le> int (length shards)
             then Inr (paths (shards ! nat (index shardInfo - 1)))
             else Inl TypeError)"

text \<open>
  \<open>getFileSize\<close>: \<open>fs.statSync(path).size\<close>, or \<open>0\<close> when \<open>statSync\<close> throws. The file system
  is the parameter \<open>statSync\<close>, which gives the size in bytes of a file that can be read.
\<close>

definition getFileSize :: "(string \<Rightarrow> nat option) \<Rightarrow> string \<Rightarrow> int" where
  "getFileSize statSync path = (case statSync path of Some n \<Rightarrow> int n | None \<Rightarrow> 0)"

definition FileSize_distributeTests ::
  "(string \<Rightarrow> nat option) \<Rightarrow> string list \<Rightarrow> ShardInfo \<Rightarrow> js_error + string list" where
  "FileSize_distributeTests statSync testPaths shardInfo =
     greedy_distribute (map (\<lambda>path. (path, getFileSize statSync path)) testPaths) shardInfo"

text \<open>
  \<open>this.testHistory.get(path) || 1000\<close>: a missing entry (\<open>undefined\<close>) and a recorded
  duration of \<open>0\<close> are both falsy and give the default \<open>1000\<close>.
\<close>

definition duration :: "(string \<rightharpoonup> int) \<Rightarrow> string \<Rightarrow> int" where
  "duration testHistory path =
     (case testHistory path of None \<Rightarrow> 1000 | Some d \<Rightarrow> if d = 0 then 1000 else d)"

definition Smart_distributeTests ::
  "(string \<rightharpoonup> int) \<Rightarrow> string list \<Rightarrow> ShardInfo \<Rightarrow> js_error + string list" where
  "Smart_distributeTests testHistory testPaths shardInfo =
     greedy_distribute (map (\<lambda>path. (path, duration testHistory path)) testPaths) shardInfo"

subsection \<open>The interface \<open>TestShardingStrategy\<close>\<close>

datatype strategy =
    RoundRobinStrategy
  | HashBasedStrategy
  | FileSizeStrategy
  | SmartStrategy "string \<rightharpoonup> int"

fun distributeTests ::
  "(string \<Rightarrow> 128 word) \<Rightarrow> (string \<Rightarrow> nat option) \<Rightarrow> strategy \<Rightarrow> string list \<Rightarrow> ShardInfo
     \<Rightarrow> js_error + string list" where
  "distributeTests md5 statSync RoundRobinStrategy testPaths shardInfo =
     Inr (RoundRobin_distributeTests testPaths shardInfo)"
| "distributeTests md5 statSync HashBasedStrategy testPaths shardInfo =
     Inr (HashBased_distributeTests md5 testPaths shardInfo)"
| "distributeTests md5 statSync FileSizeStrategy testPaths shardInfo =
     FileSize_distributeTests statSync testPaths shardInfo"
| "distributeTests md5 statSync (SmartStrategy testHistory) testPaths shardInfo =
     Smart_distributeTests testHistory testPaths shardInfo"

text \<open>All shards of one run: \<open>distributeTests\<close> called once for each index \<open>1..total\<close>.\<close>

definition all_shards ::
  "(string \<Rightarrow> 128 word) \<Rightarrow> (string \<Rightarrow> nat option) \<Rightarrow> strategy \<Rightarrow> string list \<Rightarrow> int
     \<Rightarrow> (js_error + string list) list" where
  "all_shards md5 statSync s testPaths n =
     map (\<lambda>i. distributeTests md5 statSync s testPaths \<lparr>index = i, total' = n\<rparr>) [1..n]"

text \<open>The summed cost of a subset, and the largest cost of a single test (\<open>0\<close> for no tests).\<close>

definition summed_cost :: "(string \<Rightarrow> int) \<Rightarrow> string list \<Rightarrow> int" where
  "summed_cost cost ps = sum_list (map cost ps)"

definition largest_cost :: "(string \<Rightarrow> int) \<Rightarrow> string list \<Rightarrow> int" where
  "largest_cost cost ps = foldr (\<lambda>p m. max (cost p) m) ps 0"

section \<open>Coordinator (auto-shard.ts)\<close>

subsection \<open>Persisted state\<close>

datatype shard_status = pending | running | completed | failed

text \<open>
  \<open>interface ShardStatus\<close>; an optional field that is absent is \<open>None\<close>. The field names
  are constants from here on, so the parameters \<open>shardId\<close> and \<open>exitCode\<close> of the methods are
  written \<open>shard\<close> and \<open>code\<close> below.
\<close>

record ShardStatus =
  shardId :: int
  status :: shard_status
  pid :: "int option"
  startTime :: "int option"
  endTime :: "int option"
  exitCode :: "int option"

text \<open>
  The content of a lock file \<open>shard-<id>.lock\<close>: the JSON object \<open>{pid, timestamp, hostname}\<close>
  that \<open>acquireShardLock\<close> writes, or anything that \<open>JSON.parse\<close> or the field accesses
  reject.
\<close>

datatype lock_file = Corrupted | LockData int int string

text \<open>The file \<open>shard-status.json\<close>: absent, not parsable, or a table from shard id to record.\<close>

datatype status_file = Missing | Unparsable | Table "int \<rightharpoonup> ShardStatus"

text \<open>
  The coordination directory. It is assumed to exist (the constructor creates it), and a
  file operation fails only for the reason the state gives: \<open>EEXIST\<close> on an exclusive
  create, \<open>ENOENT\<close> on reading or unlinking a missing file, a parse error on bad content.
\<close>

record fs_state =
  statusFile :: status_file
  lockFiles :: "int \<rightharpoonup> lock_file"

text \<open>
  What a calling process reads from its surroundings: \<open>process.pid\<close>, \<open>Date.now()\<close>,
  \<open>os.hostname()\<close>, whether \<open>process.platform\<close> is \<open>'win32'\<close>, and for which pids
  \<open>process.kill(pid, 0)\<close> returns without throwing.
\<close>

record process =
  process_pid :: int
  Date_now :: int
  os_hostname :: string
  platform_win32 :: bool
  kill_succeeds :: "int \<Rightarrow> bool"

definition readStatus :: "fs_state \<Rightarrow> (int \<rightharpoonup> ShardStatus)" where
  "readStatus fs = (case statusFile fs of Table t \<Rightarrow> t | Missing \<Rightarrow> Map.empty | Unparsable \<Rightarrow> Map.empty)"

definition writeStatus :: "(int \<rightharpoonup> ShardStatus) \<Rightarrow> fs_state \<Rightarrow> fs_state" where
  "writeStatus statuses fs = fs\<lparr>statusFile := Table statuses\<rparr>"

subsection \<open>\<open>acquireShardLock\<close>, one file operation at a time\<close>

text \<open>
  Other processes can change the lock file between two file operations of one call, so
  the method is first modelled as a machine that performs one file operation per step on
  the lock file of the shard. The control points are
  \<^item> \<open>Create\<close>: at \<open>fs.writeFileSync(lockFile, ..., { flag: 'wx' })\<close>;
  \<^item> \<open>ReadLock\<close>: the create failed with \<open>EEXIST\<close>; at \<open>JSON.parse(fs.readFileSync(lockFile))\<close>,
    followed by the staleness test and \<open>process.kill(lockData.pid, 0)\<close>;
  \<^item> \<open>UnlinkStale\<close>: at the \<open>unlinkSync\<close> of the branch "older than 5 minutes";
  \<^item> \<open>UnlinkDead\<close>: at the \<open>unlinkSync\<close> of the handler "process doesn't exist";
  \<^item> \<open>UnlinkCorrupt\<close>: at the \<open>unlinkSync\<close> of the handler "corrupted lock file", which also
    catches what the two other \<open>unlinkSync\<close> calls and the read throw;
  \<^item> \<open>Done b\<close>: the method has returned \<open>b\<close>.
  Each \<open>return this.acquireShardLock(shardId)\<close> is a tail call: control is at \<open>Create\<close>
  again. A file operation is one step of the machine. The exclusive create and the writing
  of the content are taken as one step, although \<open>writeFileSync\<close> opens the file and then
  writes: in between, another caller can read the file while it is empty and take the
  handler "corrupted lock file". The machine leaves these schedules out. They are further
  runs in which two callers are both granted the lock; for a single call they are among
  the interferences that leave an unparsable file (\<open>Interfere (Some Corrupted)\<close> below).
\<close>

datatype pc = Create | ReadLock | UnlinkStale | UnlinkDead | UnlinkCorrupt | Done bool

fun lock_step :: "process \<Rightarrow> pc \<times> lock_file option \<Rightarrow> pc \<times> lock_file option" where
  "lock_step env (Create, None) =
     (Done True, Some (LockData (process_pid env) (Date_now env) (os_hostname env)))"
| "lock_step env (Create, Some l) = (ReadLock, Some l)"
| "lock_step env (ReadLock, None) = (UnlinkCorrupt, None)"
| "lock_step env (ReadLock, Some Corrupted) = (UnlinkCorrupt, Some Corrupted)"
| "lock_step env (ReadLock, Some (LockData p ts h)) =
     (if Date_now env - ts > 300000 then UnlinkStale
      else if \<not> platform_win32 env then (if kill_succeeds env p then Done False else UnlinkDead)
      else Done False,
      Some (LockData p ts h))"
| "lock_step env (UnlinkStale, Some l) = (Create, None)"
| "lock_step env (UnlinkStale, None) = (UnlinkCorrupt, None)"
| "lock_step env (UnlinkDead, Some l) = (Create, None)"
| "lock_step env (UnlinkDead, None) = (UnlinkCorrupt, None)"
| "lock_step env (UnlinkCorrupt, Some l) = (Create, None)"
| "lock_step env (UnlinkCorrupt, None) = (Done False, None)"
| "lock_step env (Done b, l) = (Done b, l)"

text \<open>The call running alone: \<open>n\<close> file operations with nothing in between.\<close>

fun lock_steps :: "process \<Rightarrow> nat \<Rightarrow> pc \<times> lock_file option \<Rightarrow> pc \<times> lock_file option" where
  "lock_steps env 0 c = c"
| "lock_steps env (Suc n) c = lock_steps env n (lock_step env c)"

text \<open>
  One call with interference: \<open>Step\<close> is the next file operation of the call,
  \<open>Interfere l\<close> is another process leaving the lock file as \<open>l\<close> (creating, replacing or
  deleting it). The third component counts the exclusive creates the call has attempted.
\<close>

datatype event = Step | Interfere "lock_file option"

fun acquire_event ::
  "process \<Rightarrow> pc \<times> lock_file option \<times> nat \<Rightarrow> event \<Rightarrow> pc \<times> lock_file option \<times> nat" where
  "acquire_event env (c, l, k) Step =
     (case lock_step env (c, l) of (c', l') \<Rightarrow> (c', l', if c = Create then Suc k else k))"
| "acquire_event env (c, l, k) (Interfere l') = (c, l', k)"

definition acquire_run ::
  "process \<Rightarrow> event list \<Rightarrow> lock_file option \<Rightarrow> pc \<times> lock_file option \<times> nat" where
  "acquire_run env events l = foldl (acquire_event env) (Create, l, 0) events"

fun recreates :: "event \<Rightarrow> bool" where
  "recreates (Interfere (Some l)) = True"
| "recreates _ = False"

text \<open>
  Two processes calling \<open>acquireShardLock\<close> for the same shard: a schedule says whose file
  operation comes next (\<open>True\<close>: the first process, \<open>False\<close>: the second).
\<close>

fun race_step ::
  "process \<Rightarrow> process \<Rightarrow> pc \<times> pc \<times> lock_file option \<Rightarrow> bool \<Rightarrow> pc \<times> pc \<times> lock_file option" where
  "race_step env1 env2 (c1, c2, l) True =
     (case lock_step env1 (c1, l) of (c1', l') \<Rightarrow> (c1', c2, l'))"
| "race_step env1 env2 (c1, c2, l) False =
     (case lock_step env2 (c2, l) of (c2', l') \<Rightarrow> (c1, c2', l'))"

definition race ::
  "process \<Rightarrow> process \<Rightarrow> bool list \<Rightarrow> lock_file option \<Rightarrow> pc \<times> pc \<times> lock_file option" where
  "race env1 env2 schedule l = foldl (race_step env1 env2) (Create, Create, l) schedule"

subsection \<open>\<open>acquireShardLock\<close> as one uninterrupted call\<close>

text \<open>
  With no other process in between, every \<open>unlinkSync\<close> finds the file that the failed
  create has just seen, so the handlers for a failing \<open>unlinkSync\<close> are not entered.
\<close>

function acquireShardLock ::
  "process \<Rightarrow> int \<Rightarrow> (int \<rightharpoonup> lock_file) \<Rightarrow> bool \<times> (int \<rightharpoonup> lock_file)" where
  "acquireShardLock env shard locks =
     (case locks shard of
        None \<Rightarrow>
          (True, locks(shard \<mapsto> LockData (process_pid env) (Date_now env) (os_hostname env)))
      | Some Corrupted \<Rightarrow> acquireShardLock env shard (locks(shard := None))
      | Some (LockData p ts h) \<Rightarrow>
          if Date_now env - ts > 300000
          then acquireShardLock env shard (locks(shard := None))
          else if \<not> platform_win32 env
          then (if kill_succeeds env p then (False, locks)
                else acquireShardLock env shard (locks(shard := None)))
          else (False, locks))"
  by pat_completeness auto
termination
  by (relation "measure (\<lambda>(env, shard, locks). if locks shard = None then 0 else 1)") auto

text \<open>
  The lock file the caller writes, and the locks the call leaves alone: a parsable lock
  that is not older than five minutes and whose owner answers \<open>process.kill(pid, 0)\<close>
  (on \<open>win32\<close> the owner is not probed).
\<close>

definition own_lock :: "process \<Rightarrow> lock_file" where
  "own_lock env = LockData (process_pid env) (Date_now env) (os_hostname env)"

fun lock_is_live :: "process \<Rightarrow> lock_file option \<Rightarrow> bool" where
  "lock_is_live env (Some (LockData p ts h)) =
     (\<not> Date_now env - ts > 300000 \<and> (platform_win32 env \<or> kill_succeeds env p))"
| "lock_is_live env (Some Corrupted) = False"
| "lock_is_live env None = False"

definition releaseShardLock :: "int \<Rightarrow> fs_state \<Rightarrow> fs_state" where
  "releaseShardLock shard fs = fs\<lparr>lockFiles := (lockFiles fs)(shard := None)\<rparr>"

subsection \<open>\<open>determineNextAvailableShard\<close> and \<open>markShardComplete\<close>\<close>

definition initial_entry :: "int \<Rightarrow> ShardStatus" where
  "initial_entry i =
     \<lparr>shardId = i, status = pending, pid = None, startTime = None, endTime = None, exitCode = None\<rparr>"

text \<open>The first loop: \<open>if (!statuses[i]) statuses[i] = { shardId: i, status: 'pending' }\<close>.\<close>

fun init_statuses :: "int list \<Rightarrow> (int \<rightharpoonup> ShardStatus) \<Rightarrow> (int \<rightharpoonup> ShardStatus)" where
  "init_statuses [] statuses = statuses"
| "init_statuses (i # ids) statuses =
     init_statuses ids (if statuses i = None then statuses(i \<mapsto> initial_entry i) else statuses)"

text \<open>
  The second loop. The table is written only when a lock has been acquired. (The case
  \<open>statuses i = None\<close> does not arise after the first loop, see \<open>init_statuses_defined\<close>.)
\<close>

fun find_shard ::
  "process \<Rightarrow> int list \<Rightarrow> (int \<rightharpoonup> ShardStatus) \<Rightarrow> fs_state \<Rightarrow> int option \<times> fs_state" where
  "find_shard env [] statuses fs = (None, fs)"
| "find_shard env (i # ids) statuses fs =
     (case statuses i of
        None \<Rightarrow> find_shard env ids statuses fs
      | Some st \<Rightarrow>
          if status st = pending \<or> status st = failed
          then (case acquireShardLock env i (lockFiles fs) of
                  (True, locks') \<Rightarrow>
                    (Some i,
                     writeStatus
                       (statuses(i \<mapsto> st\<lparr>status := running, pid := Some (process_pid env),
                                          startTime := Some (Date_now env)\<rparr>))
                       (fs\<lparr>lockFiles := locks'\<rparr>))
                | (False, locks') \<Rightarrow> find_shard env ids statuses (fs\<lparr>lockFiles := locks'\<rparr>))
          else find_shard env ids statuses fs)"

definition determineNextAvailableShard :: "process \<Rightarrow> int \<Rightarrow> fs_state \<Rightarrow> int option \<times> fs_state" where
  "determineNextAvailableShard env totalShards fs =
     find_shard env [1..totalShards] (init_statuses [1..totalShards] (readStatus fs)) fs"

definition markShardComplete :: "process \<Rightarrow> int \<Rightarrow> int \<Rightarrow> fs_state \<Rightarrow> fs_state" where
  "markShardComplete env shard code fs =
     (let statuses = readStatus fs in
      case statuses shard of
        None \<Rightarrow> fs
      | Some st \<Rightarrow>
          releaseShardLock shard
            (writeStatus
               (statuses(shard \<mapsto> st\<lparr>status := (if code = 0 then completed else failed),
                                         endTime := Some (Date_now env),
                                         exitCode := Some code\<rparr>))
               fs))"

subsection \<open>Sequences of coordinator operations\<close>

text \<open>
  Processes that share the coordination directory call the two operations one after the
  other; each call is made by some process at some time. A shard without a record counts
  as \<open>pending\<close>, the status the first loop of \<open>determineNextAvailableShard\<close> gives it.
\<close>

datatype coordinator_op = DetermineNext process | MarkComplete process int int

fun apply_op :: "int \<Rightarrow> coordinator_op \<Rightarrow> fs_state \<Rightarrow> int option \<times> fs_state" where
  "apply_op totalShards (DetermineNext env) fs = determineNextAvailableShard env totalShards fs"
| "apply_op totalShards (MarkComplete env shard code) fs =
     (None, markShardComplete env shard code fs)"

text \<open>The run of a sequence: for each operation the state before, the result, the state after.\<close>

fun run_ops ::
  "int \<Rightarrow> coordinator_op list \<Rightarrow> fs_state \<Rightarrow> (fs_state \<times> int option \<times> fs_state) list" where
  "run_ops totalShards [] fs = []"
| "run_ops totalShards (op # ops) fs =
     (case apply_op totalShards op fs of
        (r, fs') \<Rightarrow> (fs, r, fs') # run_ops totalShards ops fs')"

definition status_of :: "fs_state \<Rightarrow> int \<Rightarrow> shard_status" where
  "status_of fs i = (case readStatus fs i of None \<Rightarrow> pending | Some st \<Rightarrow> status st)"

definition allowed_transition :: "shard_status \<Rightarrow> shard_status \<Rightarrow> bool" where
  "allowed_transition a b =
     (a = pending \<and> b = running \<or> a = running \<and> b = completed \<or>
      a = running \<and> b = failed \<or> a = failed \<and> b = running)"

text \<open>
  The discipline of the runner: \<open>markShardComplete\<close> is called for a shard only while the
  shard is \<open>running\<close>.
\<close>

fun marks_running_only :: "int \<Rightarrow> coordinator_op list \<Rightarrow> fs_state \<Rightarrow> bool" where
  "marks_running_only totalShards [] fs = True"
| "marks_running_only totalShards (op # ops) fs =
     ((case op of
         DetermineNext env \<Rightarrow> True
       | MarkComplete env shard code \<Rightarrow> status_of fs shard = running)
      \<and> marks_running_only totalShards ops (snd (apply_op totalShards op fs)))"

fun marks_shard :: "int \<Rightarrow> coordinator_op \<Rightarrow> bool" where
  "marks_shard i (MarkComplete env shard code) = (shard = i)"
| "marks_shard i (DetermineNext env) = False"

subsection \<open>The invariant used for the bound on retries\<close>

text \<open>
  The bookkeeping behind the bound on retries: \<open>n\<close> counts the lock files the call can
  still delete or has deleted (the one found at the start and the ones other processes
  put back). At \<open>Create\<close> every attempt so far was followed by a deletion; elsewhere one
  attempt is ahead.
\<close>

fun retry_inv :: "pc \<times> lock_file option \<times> nat \<Rightarrow> nat \<Rightarrow> bool" where
  "retry_inv (Create, l, k) n = (k + (if l = None then 0 else 1) \<le> n)"
| "retry_inv (Done b, l, k) n = (k \<le> Suc n)"
| "retry_inv (c, l, k) n = (k + (if l = None then 0 else 1) \<le> Suc n)"

section \<open>Concrete inputs\<close>

text \<open>A digest function and a file system to run the strategies on.\<close>

definition md5_example :: "string \<Rightarrow> 128 word" where
  "md5_example path = push_bit 96 (word_of_nat (length path))"

definition stat_example :: "string \<Rightarrow> nat option" where
  "stat_example path =
     map_of [(''a'', 1000), (''b'', 2000), (''c'', 1500), (''d'', 500), (''e'', 3000), (''f'', 800)] path"

definition history_example :: "string \<rightharpoonup> int" where
  "history_example = map_of [(''a'', 5000), (''b'', 0), (''c'', 3000)]"

text \<open>A history with a negative duration.\<close>

definition history_negative :: "string \<rightharpoonup> int" where
  "history_negative = map_of [(''a'', - 500), (''b'', 200)]"

definition tests_example :: "string list" where
  "tests_example = [''a'', ''b'', ''c'', ''d'', ''e'', ''f'']"

text \<open>
  Two processes on one POSIX host at the same time, each alive for the other, and a lock
  file left behind more than five minutes ago by a process that is gone.
\<close>

definition process1 :: process where
  "process1 = \<lparr>process_pid = 101, Date_now = 1000000, os_hostname = ''ci'', platform_win32 = False,
            kill_succeeds = (\<lambda>p. p = 101 \<or> p = 102)\<rparr>"

definition process2 :: process where
  "process2 = \<lparr>process_pid = 102, Date_now = 1000000, os_hostname = ''ci'', platform_win32 = False,
            kill_succeeds = (\<lambda>p. p = 101 \<or> p = 102)\<rparr>"

definition stale_lock :: lock_file where
  "stale_lock = LockData 77 0 ''ci''"

text \<open>A fresh lock file whose owner has already exited.\<close>

definition orphan_lock :: lock_file where
  "orphan_lock = LockData 55 999999 ''ci''"

text \<open>The coordination directory before any call, and with a lock on shard 3 only.\<close>

definition fs_empty :: fs_state where
  "fs_empty = \<lparr>statusFile = Missing, lockFiles = Map.empty\<rparr>"

definition fs_locked3 :: fs_state where
  "fs_locked3 =
     \<lparr>statusFile = Table (Map.empty(1 \<mapsto> initial_entry 1)),
      lockFiles = Map.empty(3 \<mapsto> LockData 101 999000 ''ci'')\<rparr>"

text \<open>
  The coordination directory after process 101 has claimed shard 1 of 2, and after process
  102 has then claimed shard 2; the record of a claimed shard; a sequence of operations.
\<close>

definition fs_one :: fs_state where
  "fs_one = snd (determineNextAvailableShard process1 2 fs_empty)"

definition fs_two :: fs_state where
  "fs_two = snd (determineNextAvailableShard process2 2 fs_one)"

definition running_entry :: "int \<Rightarrow> int \<Rightarrow> ShardStatus" where
  "running_entry i p =
     \<lparr>shardId = i, status = running, pid = Some p, startTime = Some 1000000, endTime = None,
      exitCode = None\<rparr>"

definition ops_example :: "coordinator_op list" where
  "ops_example =
     [DetermineNext process1, MarkComplete process1 1 1, DetermineNext process2,
      MarkComplete process2 1 0, DetermineNext process1]"

section \<open>Properties of the assignment strategies\<close>

subsection \<open>Every strategy partitions the test list\<close>

lemma sum_list_no_delta_mset:
  "g \<notin> set js \<Longrightarrow> (\<Sum>i\<leftarrow>js. if g = i then {#x#} else {#}) = {#}"
  by (induction js) auto

lemma sum_list_delta_mset:
  "distinct js \<Longrightarrow> g \<in> set js \<Longrightarrow> (\<Sum>i\<leftarrow>js. if g = i then {#x#} else {#}) = {#x#}"
  by (induction js) (auto simp: sum_list_no_delta_mset)

lemma js_rem_pos: "0 \<le> a \<Longrightarrow> 1 \<le> n \<Longrightarrow> js_rem a n = Some (a mod n)"
  by (cases "a = 0") (simp_all add: js_rem_def)

lemma sum_list_filter_partition:
  assumes "distinct js" and "\<forall>x\<in>set xs. g x \<in> set js"
  shows "(\<Sum>i\<leftarrow>js. mset (filter (\<lambda>x. g x = i) xs)) = mset xs"
  using assms(2)
proof (induction xs)
  case Nil
  then show ?case by (induction js) simp_all
next
  case (Cons x xs)
  have "(\<Sum>i\<leftarrow>js. mset (filter (\<lambda>y. g y = i) (x # xs)))
      = (\<Sum>i\<leftarrow>js. (if g x = i then {#x#} else {#}) + mset (filter (\<lambda>y. g y = i) xs))"
    by (rule arg_cong [where f = sum_list]) (rule map_cong, simp_all)
  also have "\<dots> = (\<Sum>i\<leftarrow>js. if g x = i then {#x#} else {#}) + (\<Sum>i\<leftarrow>js. mset (filter (\<lambda>y. g y = i) xs))"
    by (simp add: sum_list_addf)
  also have "\<dots> = {#x#} + mset xs"
  proof -
    have "g x \<in> set js" using Cons.prems by simp
    then have "(\<Sum>i\<leftarrow>js. if g x = i then {#x#} else {#}) = {#x#}"
      using assms(1) by (rule sum_list_delta_mset [rotated])
    moreover have "(\<Sum>i\<leftarrow>js. mset (filter (\<lambda>y. g y = i) xs)) = mset xs"
      using Cons by simp
    ultimately show ?thesis by simp
  qed
  finally show ?case by simp
qed

lemma sum_list_image_mset:
  "(\<Sum>i\<leftarrow>js. image_mset f (M i)) = image_mset f (\<Sum>i\<leftarrow>js. M i)"
  by (induction js) simp_all

lemma RoundRobin_partition:
  assumes "1 \<le> n"
  shows "(\<Sum>i\<leftarrow>[1..n]. mset (RoundRobin_distributeTests tests \<lparr>index = i, total' = n\<rparr>)) = mset tests"
proof -
  let ?ps = "zip tests [0..<length tests]"
  let ?g = "\<lambda>p :: string \<times> nat. int (snd p) mod n + 1"
  have sel: "RoundRobin_distributeTests tests \<lparr>index = i, total' = n\<rparr>
               = map fst (filter (\<lambda>p. ?g p = i) ?ps)" for i
    unfolding RoundRobin_distributeTests_def filter_indexed_def
    using assms by (auto simp: js_rem_pos intro!: arg_cong [where f = "map fst"] filter_cong)
  have "0 \<le> k mod n \<and> k mod n < n" for k
    using assms by simp
  then have "\<forall>p\<in>set ?ps. ?g p \<in> set [1..n]"
    by (auto simp: add1_zle_eq)
  then have "(\<Sum>i\<leftarrow>[1..n]. mset (filter (\<lambda>p. ?g p = i) ?ps)) = mset ?ps"
    by (intro sum_list_filter_partition) simp_all
  then have "(\<Sum>i\<leftarrow>[1..n]. image_mset fst (mset (filter (\<lambda>p. ?g p = i) ?ps))) = image_mset fst (mset ?ps)"
    by (simp only: sum_list_image_mset)
  moreover have "image_mset fst (mset ?ps) = mset tests"
    by (metis length_upt map_fst_zip minus_nat.diff_0 mset_map)
  ultimately show ?thesis
    by (simp add: sel)
qed

lemma hexval_hexchar_all: "\<forall>k\<in>set [0..<16]. hexval (hexchar k) = Some k"
  by code_simp

lemma hexval_hexchar: "hexval (hexchar n) = Some (n mod 16)"
proof -
  have "n mod 16 \<in> set [0..<16]" by simp
  then have "hexval (hexchar (n mod 16)) = Some (n mod 16)"
    using hexval_hexchar_all by blast
  then show ?thesis by (simp add: hexchar_def)
qed

lemma hashNum_Some: "\<exists>h. hashNum md5 p = Some h"
proof -
  have "[0..<32] = 0 # [1..<32]"
    by (simp add: upt_conv_Cons)
  then have "\<exists>n cs. take 8 (hex_digest (md5 p)) = hexchar n # cs"
    by (auto simp: hex_digest_def)
  then obtain n cs where "take 8 (hex_digest (md5 p)) = hexchar n # cs"
    by blast
  then show ?thesis
    by (simp add: hashNum_def parseInt16_def hexval_hexchar)
qed

text \<open>
  The number the strategy reduces modulo \<open>total\<close> is the value of the first eight
  hexadecimal digits of the digest, that is, of its 32 most significant bits.
\<close>

lemma nibble_eq: "unat (drop_bit k (w :: 128 word) AND 15) = (unat w div 2 ^ k) mod 16"
proof -
  have "(15 :: 128 word) = mask 4" by (simp add: mask_eq_exp_minus_1)
  then have "drop_bit k w AND 15 = take_bit 4 (drop_bit k w)"
    by (simp add: take_bit_eq_mask)
  then have "unat (drop_bit k w AND 15) = take_bit 4 (unat (drop_bit k w))"
    by (simp add: unsigned_take_bit_eq)
  also have "\<dots> = (unat w div 2 ^ k) mod 16"
    unfolding unat_drop_bit_eq by (simp add: take_bit_eq_mod drop_bit_eq_div)
  finally show ?thesis .
qed

lemma hashNum_value: "hashNum md5 path = Some (unat (drop_bit 96 (md5 path)))"
proof -
  define N where "N = unat (md5 path)"
  define X where "X = N div 2 ^ 96"
  have "N < 2 ^ 128" unfolding N_def using unsigned_less [of "md5 path"] by simp
  then have X: "X < 2 ^ 32" unfolding X_def
    by (simp add: less_mult_imp_div_less)
  have digits: "take 8 (hex_digest (md5 path)) =
      map (\<lambda>k. hexchar ((N div 2 ^ (4 * (31 - k))) mod 16)) [0..<8]"
    by (simp add: hex_digest_def take_map nibble_eq N_def)
  have shift: "N div 2 ^ (96 + j) = X div 2 ^ j" for j
    by (simp add: X_def power_add div_mult2_eq)
  have "[0..<8] = [0, 1, 2, 3, 4, 5, 6, 7]"
    by (simp add: upt_conv_Cons)
  with digits have "take 8 (hex_digest (md5 path)) =
      [hexchar ((X div 2 ^ 28) mod 16), hexchar ((X div 2 ^ 24) mod 16),
       hexchar ((X div 2 ^ 20) mod 16), hexchar ((X div 2 ^ 16) mod 16),
       hexchar ((X div 2 ^ 12) mod 16), hexchar ((X div 2 ^ 8) mod 16),
       hexchar ((X div 2 ^ 4) mod 16), hexchar (X mod 16)]"
    using shift [of 28] shift [of 24] shift [of 20] shift [of 16] shift [of 12] shift [of 8]
      shift [of 4] shift [of 0]
    by simp
  then have val: "hashNum md5 path = Some (16 * (16 * (16 * (16 * (16 * (16 * (16 * ((X div 2 ^ 28) mod 16)
      + (X div 2 ^ 24) mod 16) + (X div 2 ^ 20) mod 16) + (X div 2 ^ 16) mod 16)
      + (X div 2 ^ 12) mod 16) + (X div 2 ^ 8) mod 16) + (X div 2 ^ 4) mod 16) + X mod 16)"
    by (simp add: hashNum_def parseInt16_def hexval_hexchar)
  have d: "X div 2 ^ (j + 4) = (X div 2 ^ j) div 16" for j
    by (simp add: power_add div_mult2_eq)
  have top: "(X div 2 ^ 28) mod 16 = X div 2 ^ 28"
    using X by (simp add: less_mult_imp_div_less)
  have s7: "16 * (X div 2 ^ 28) + (X div 2 ^ 24) mod 16 = X div 2 ^ 24"
    using d [of 24] by simp
  have s6: "16 * (X div 2 ^ 24) + (X div 2 ^ 20) mod 16 = X div 2 ^ 20"
    using d [of 20] by simp
  have s5: "16 * (X div 2 ^ 20) + (X div 2 ^ 16) mod 16 = X div 2 ^ 16"
    using d [of 16] by simp
  have s4: "16 * (X div 2 ^ 16) + (X div 2 ^ 12) mod 16 = X div 2 ^ 12"
    using d [of 12] by simp
  have s3: "16 * (X div 2 ^ 12) + (X div 2 ^ 8) mod 16 = X div 2 ^ 8"
    using d [of 8] by simp
  have s2: "16 * (X div 2 ^ 8) + (X div 2 ^ 4) mod 16 = X div 2 ^ 4"
    using d [of 4] by simp
  have s1: "16 * (X div 2 ^ 4) + X mod 16 = X"
    by simp
  have "hashNum md5 path = Some X"
    unfolding val top s7 s6 s5 s4 s3 s2 s1 ..
  also have "X = unat (drop_bit 96 (md5 path))"
    unfolding unat_drop_bit_eq by (simp add: X_def N_def drop_bit_eq_div)
  finally show ?thesis .
qed

lemma HashBased_partition:
  assumes "1 \<le> n"
  shows "(\<Sum>i\<leftarrow>[1..n]. mset (HashBased_distributeTests md5 tests \<lparr>index = i, total' = n\<rparr>)) = mset tests"
proof -
  define g where "g p = (case hashNum md5 p of None \<Rightarrow> 0 | Some h \<Rightarrow> int h mod n + 1)" for p
  have sel: "hash_selects md5 \<lparr>index = i, total' = n\<rparr> p \<longleftrightarrow> g p = i" for i p
    using hashNum_Some [of md5 p] assms
    by (auto simp: hash_selects_def g_def js_rem_pos)
  have "0 \<le> k mod n \<and> k mod n < n" for k
    using assms by simp
  then have "\<forall>p\<in>set tests. g p \<in> set [1..n]"
    using hashNum_Some [of md5] by (auto simp: g_def add1_zle_eq split: option.splits)
  then have "(\<Sum>i\<leftarrow>[1..n]. mset (filter (\<lambda>p. g p = i) tests)) = mset tests"
    by (intro sum_list_filter_partition) simp_all
  then show ?thesis
    by (simp add: HashBased_distributeTests_def sel [abs_def])
qed

lemma foldl_min_less:
  "m < n \<Longrightarrow> set js \<subseteq> {..<n} \<Longrightarrow> foldl (\<lambda>min i. if P i min then i else min) m js < n"
  by (induction js arbitrary: m) auto

lemma minShard_less: "shards \<noteq> [] \<Longrightarrow> minShard shards < length shards"
  unfolding minShard_def by (rule foldl_min_less) auto

lemma sum_list_mset_update:
  "m < length xs \<Longrightarrow>
     (\<Sum>s\<leftarrow>xs[m := v]. f s) + f (xs ! m) = (\<Sum>s\<leftarrow>xs. f s) + (f v :: 'a multiset)"
  by (induction xs arbitrary: m) (auto split: nat.splits)

lemma assign_loop_partition:
  "shards \<noteq> [] \<Longrightarrow>
     \<exists>shards'. assign_loop files shards = Inr shards' \<and> length shards' = length shards \<and>
       (\<Sum>s\<leftarrow>shards'. mset (paths s)) = (\<Sum>s\<leftarrow>shards. mset (paths s)) + mset (map fst files)"
proof (induction files arbitrary: shards)
  case Nil
  then show ?case by simp
next
  case (Cons f files)
  obtain p c where f: "f = (p, c)" by (cases f)
  let ?m = "minShard shards"
  let ?v = "\<lparr>paths = paths (shards ! ?m) @ [p], totalSize = totalSize (shards ! ?m) + c\<rparr>"
  have m: "?m < length shards" using Cons.prems by (rule minShard_less)
  have "shards[?m := ?v] \<noteq> []" using Cons.prems by simp
  from Cons.IH [OF this] obtain shards' where
    run: "assign_loop files (shards[?m := ?v]) = Inr shards'" and
    len: "length shards' = length shards" and
    sum: "(\<Sum>s\<leftarrow>shards'. mset (paths s))
            = (\<Sum>s\<leftarrow>shards[?m := ?v]. mset (paths s)) + mset (map fst files)"
    by auto
  have "(\<Sum>s\<leftarrow>shards[?m := ?v]. mset (paths s)) + mset (paths (shards ! ?m))
          = (\<Sum>s\<leftarrow>shards. mset (paths s)) + mset (paths ?v)"
    using m by (rule sum_list_mset_update)
  then have "(\<Sum>s\<leftarrow>shards[?m := ?v]. mset (paths s)) = (\<Sum>s\<leftarrow>shards. mset (paths s)) + {#p#}"
    by simp
  with run len sum m show ?case
    by (simp add: f Let_def)
qed

lemma greedy_distribute_all:
  assumes "1 \<le> n"
  shows "\<exists>outs. map (\<lambda>i. greedy_distribute files \<lparr>index = i, total' = n\<rparr>) [1..n] = map Inr outs \<and>
           mset (concat outs) = mset (map fst files)"
proof -
  let ?sorted = "sort_key (\<lambda>f. - snd f) files"
  let ?shards0 = "replicate (nat n) \<lparr>paths = [], totalSize = 0\<rparr>"
  have "?shards0 \<noteq> []" using assms by simp
  from assign_loop_partition [OF this, of ?sorted] obtain shards where
    run: "assign_loop ?sorted ?shards0 = Inr shards" and
    len: "length shards = nat n" and
    sum: "(\<Sum>s\<leftarrow>shards. mset (paths s)) = (\<Sum>s\<leftarrow>?shards0. mset (paths s)) + mset (map fst ?sorted)"
    by auto
  have zero: "sum_list (replicate k ({#} :: string multiset)) = {#}" for k
    by (induction k) simp_all
  have each: "greedy_distribute files \<lparr>index = i, total' = n\<rparr> = Inr (paths (shards ! nat (i - 1)))"
    if "i \<in> set [1..n]" for i
    using that run len by (simp add: greedy_distribute_def)
  have "map (\<lambda>i. greedy_distribute files \<lparr>index = i, total' = n\<rparr>) [1..n]
          = map (\<lambda>i. Inr (paths (shards ! nat (i - 1)))) [1..n]"
    by (rule map_cong [OF refl each])
  also have "\<dots> = map Inr (map paths shards)"
    using len by (auto simp: list_eq_iff_nth_eq)
  finally have "map (\<lambda>i. greedy_distribute files \<lparr>index = i, total' = n\<rparr>) [1..n]
                  = map Inr (map paths shards)" .
  moreover have "mset (concat (map paths shards)) = mset (map fst files)"
    using sum by (simp add: mset_concat zero comp_def)
  ultimately show ?thesis by blast
qed

lemma distinct_concat_disjoint:
  "distinct (concat xss) \<Longrightarrow> i < j \<Longrightarrow> j < length xss \<Longrightarrow> set (xss ! i) \<inter> set (xss ! j) = {}"
proof (induction xss arbitrary: i j)
  case Nil
  then show ?case by simp
next
  case (Cons xs xss)
  show ?case
  proof (cases i)
    case 0
    then obtain j' where "j = Suc j'" "j' < length xss"
      using Cons.prems by (cases j) auto
    then have "set (xss ! j') \<subseteq> \<Union> (set ` set xss)"
      using nth_mem by blast
    with 0 \<open>j = Suc j'\<close> Cons.prems(1) show ?thesis by auto
  next
    case (Suc i')
    then obtain j' where "j = Suc j'" "i' < j'" "j' < length xss"
      using Cons.prems by (cases j) auto
    with Suc Cons show ?thesis by auto
  qed
qed

text \<open>
  Claim C1. For every strategy, every \<open>total \<ge> 1\<close> and every test list, calling
  \<open>distributeTests\<close> once per index \<open>1..total\<close> raises no error and yields subsets whose
  concatenation has exactly the elements of the input list, each as often as the input
  has it: every occurrence of a test in the input is in exactly one subset, none is lost
  or duplicated. In particular, when the input names each test once, the subsets are
  pairwise disjoint as sets.
\<close>

theorem distributeTests_partition:
  assumes "1 \<le> n"
  shows "\<exists>outs. all_shards md5 statSync s tests n = map Inr outs \<and>
           mset (concat outs) = mset tests \<and>
           (distinct tests \<longrightarrow>
              (\<forall>i j. i < j \<and> j < length outs \<longrightarrow> set (outs ! i) \<inter> set (outs ! j) = {}))"
proof -
  have "\<exists>outs. all_shards md5 statSync s tests n = map Inr outs \<and> mset (concat outs) = mset tests"
  proof (cases s)
    case RoundRobinStrategy
    let ?outs = "map (\<lambda>i. RoundRobin_distributeTests tests \<lparr>index = i, total' = n\<rparr>) [1..n]"
    have "all_shards md5 statSync s tests n = map Inr ?outs"
      by (simp add: all_shards_def RoundRobinStrategy comp_def)
    moreover have "mset (concat ?outs) = mset tests"
      using RoundRobin_partition [OF assms, of tests] by (simp add: mset_concat comp_def)
    ultimately show ?thesis by blast
  next
    case HashBasedStrategy
    let ?outs = "map (\<lambda>i. HashBased_distributeTests md5 tests \<lparr>index = i, total' = n\<rparr>) [1..n]"
    have "all_shards md5 statSync s tests n = map Inr ?outs"
      by (simp add: all_shards_def HashBasedStrategy comp_def)
    moreover have "mset (concat ?outs) = mset tests"
      using HashBased_partition [OF assms, of md5 tests] by (simp add: mset_concat comp_def)
    ultimately show ?thesis by blast
  next
    case FileSizeStrategy
    from greedy_distribute_all [OF assms, of "map (\<lambda>path. (path, getFileSize statSync path)) tests"]
    show ?thesis
      by (simp add: all_shards_def FileSizeStrategy FileSize_distributeTests_def comp_def)
  next
    case (SmartStrategy testHistory)
    from greedy_distribute_all [OF assms, of "map (\<lambda>path. (path, duration testHistory path)) tests"]
    show ?thesis
      by (simp add: all_shards_def SmartStrategy Smart_distributeTests_def comp_def)
  qed
  then obtain outs where
    outs: "all_shards md5 statSync s tests n = map Inr outs" "mset (concat outs) = mset tests"
    by blast
  have "set (outs ! i) \<inter> set (outs ! j) = {}" if "distinct tests" "i < j" "j < length outs" for i j
  proof -
    from outs(2) that(1) have "distinct (concat outs)"
      by (metis mset_eq_imp_distinct_iff)
    then show ?thesis using that(2,3) by (rule distinct_concat_disjoint)
  qed
  with outs show ?thesis by blast
qed

theorem distributeTests_partition_witness:
  "(1::int) \<le> 2 \<and>
   (\<exists>outs. all_shards md5_example stat_example FileSizeStrategy [''a'', ''b'', ''c''] 2 = map Inr outs \<and>
      mset (concat outs) = mset [''a'', ''b'', ''c''] \<and>
      (distinct [''a'', ''b'', ''c''] \<longrightarrow>
         (\<forall>i j. i < j \<and> j < length outs \<longrightarrow> set (outs ! i) \<inter> set (outs ! j) = {})))"
  using distributeTests_partition [of 2 md5_example stat_example FileSizeStrategy "[''a'', ''b'', ''c'']"]
  by simp

subsection \<open>The greedy loop on two shards\<close>

lemma minShard_two: "minShard [s0, s1] = (if totalSize s1 < totalSize s0 then 1 else 0)"
proof -
  have "[0..<2] = [0, 1]" by (simp add: upt_conv_Cons)
  then show ?thesis by (simp add: minShard_def)
qed

lemma summed_cost_snoc: "summed_cost cost (ps @ [p]) = summed_cost cost ps + cost p"
  by (simp add: summed_cost_def)

lemma assign_loop_two:
  assumes "\<forall>f\<in>set files. snd f = cost (fst f) \<and> 0 \<le> snd f \<and> snd f \<le> M"
    and "totalSize s0 = summed_cost cost (paths s0)"
    and "totalSize s1 = summed_cost cost (paths s1)"
    and "\<bar>totalSize s0 - totalSize s1\<bar> \<le> M"
  shows "\<exists>t0 t1. assign_loop files [s0, s1] = Inr [t0, t1] \<and>
           totalSize t0 = summed_cost cost (paths t0) \<and>
           totalSize t1 = summed_cost cost (paths t1) \<and>
           \<bar>totalSize t0 - totalSize t1\<bar> \<le> M"
  using assms
proof (induction files arbitrary: s0 s1)
  case Nil
  then show ?case by simp
next
  case (Cons f files)
  obtain p c where f: "f = (p, c)" by (cases f)
  from Cons.prems(1) f have c: "c = cost p" "0 \<le> c" "c \<le> M" by auto
  from Cons.prems(1) have rest: "\<forall>f\<in>set files. snd f = cost (fst f) \<and> 0 \<le> snd f \<and> snd f \<le> M"
    by auto
  show ?case
  proof (cases "totalSize s1 < totalSize s0")
    case True
    let ?s1 = "\<lparr>paths = paths s1 @ [p], totalSize = totalSize s1 + c\<rparr>"
    have step: "assign_loop (f # files) [s0, s1] = assign_loop files [s0, ?s1]"
      using True by (simp add: f minShard_two)
    have "totalSize ?s1 = summed_cost cost (paths ?s1)"
      using Cons.prems(3) c(1) by (simp add: summed_cost_snoc)
    moreover have "\<bar>totalSize s0 - totalSize ?s1\<bar> \<le> M"
      using True Cons.prems(4) c by simp
    ultimately show ?thesis
      using Cons.IH [OF rest Cons.prems(2), of ?s1] step by simp
  next
    case False
    let ?s0 = "\<lparr>paths = paths s0 @ [p], totalSize = totalSize s0 + c\<rparr>"
    have step: "assign_loop (f # files) [s0, s1] = assign_loop files [?s0, s1]"
      using False by (simp add: f minShard_two)
    have "totalSize ?s0 = summed_cost cost (paths ?s0)"
      using Cons.prems(2) c(1) by (simp add: summed_cost_snoc)
    moreover have "\<bar>totalSize ?s0 - totalSize s1\<bar> \<le> M"
      using False Cons.prems(4) c by simp
    ultimately show ?thesis
      using Cons.IH [OF rest _ Cons.prems(3), of ?s0] step by simp
  qed
qed

lemma largest_cost_ge: "0 \<le> largest_cost cost ps"
  by (induction ps) (simp_all add: largest_cost_def)

lemma largest_cost_upper: "p \<in> set ps \<Longrightarrow> cost p \<le> largest_cost cost ps"
  by (induction ps) (auto simp: largest_cost_def)

lemma largest_cost_Max:
  assumes "ps \<noteq> []" and "\<forall>p\<in>set ps. 0 \<le> cost p"
  shows "largest_cost cost ps = Max (cost ` set ps)"
  using assms
proof (induction ps)
  case Nil
  then show ?case by simp
next
  case (Cons p ps)
  show ?case
  proof (cases "ps = []")
    case True
    with Cons.prems show ?thesis by (simp add: largest_cost_def)
  next
    case False
    with Cons have "largest_cost cost ps = Max (cost ` set ps)" by simp
    with False show ?thesis by (simp add: largest_cost_def)
  qed
qed

lemma greedy_gap_two_shards:
  assumes "\<forall>p\<in>set tests. 0 \<le> cost p"
  shows "\<exists>s1 s2.
           greedy_distribute (map (\<lambda>path. (path, cost path)) tests) \<lparr>index = 1, total' = 2\<rparr> = Inr s1 \<and>
           greedy_distribute (map (\<lambda>path. (path, cost path)) tests) \<lparr>index = 2, total' = 2\<rparr> = Inr s2 \<and>
           \<bar>summed_cost cost s1 - summed_cost cost s2\<bar> \<le> largest_cost cost tests"
proof -
  let ?files = "sort_key (\<lambda>f. - snd f) (map (\<lambda>path. (path, cost path)) tests)"
  let ?e = "\<lparr>paths = [], totalSize = 0\<rparr>"
  have "\<forall>f\<in>set ?files. snd f = cost (fst f) \<and> 0 \<le> snd f \<and> snd f \<le> largest_cost cost tests"
    using assms by (auto simp: largest_cost_upper)
  moreover have "totalSize ?e = summed_cost cost (paths ?e)"
    by (simp add: summed_cost_def)
  moreover have "\<bar>totalSize ?e - totalSize ?e\<bar> \<le> largest_cost cost tests"
    by (simp add: largest_cost_ge)
  ultimately obtain t0 t1 where
    "assign_loop ?files [?e, ?e] = Inr [t0, t1]"
    "totalSize t0 = summed_cost cost (paths t0)"
    "totalSize t1 = summed_cost cost (paths t1)"
    "\<bar>totalSize t0 - totalSize t1\<bar> \<le> largest_cost cost tests"
    using assign_loop_two [of ?files cost "largest_cost cost tests" ?e ?e] by blast
  moreover have "replicate (nat 2) ?e = [?e, ?e]"
    by (simp add: numeral_2_eq_2)
  ultimately show ?thesis
    by (simp add: greedy_distribute_def)
qed

lemma getFileSize_nonneg: "0 \<le> getFileSize statSync p"
  by (simp add: getFileSize_def split: option.splits)

text \<open>
  Claim C6, as the code has it. With two shards, the summed costs of the two subsets
  differ by at most the largest cost of a single test, for every test list, when no test
  has a negative cost. For \<open>FileSizeStrategy\<close> the cost is the file size, which is never
  negative, so the bound holds for every file system. For \<open>SmartStrategy\<close> the cost is the
  recorded duration (or the default \<open>1000\<close>), and the bound holds for every history in which
  no test of the list has a negative duration.
\<close>

theorem two_shard_gap:
  "(\<exists>s1 s2.
      FileSize_distributeTests statSync tests \<lparr>index = 1, total' = 2\<rparr> = Inr s1 \<and>
      FileSize_distributeTests statSync tests \<lparr>index = 2, total' = 2\<rparr> = Inr s2 \<and>
      \<bar>summed_cost (getFileSize statSync) s1 - summed_cost (getFileSize statSync) s2\<bar>
        \<le> largest_cost (getFileSize statSync) tests) \<and>
   ((\<forall>p\<in>set tests. 0 \<le> duration testHistory p) \<longrightarrow>
    (\<exists>s1 s2.
      Smart_distributeTests testHistory tests \<lparr>index = 1, total' = 2\<rparr> = Inr s1 \<and>
      Smart_distributeTests testHistory tests \<lparr>index = 2, total' = 2\<rparr> = Inr s2 \<and>
      \<bar>summed_cost (duration testHistory) s1 - summed_cost (duration testHistory) s2\<bar>
        \<le> largest_cost (duration testHistory) tests))"
  unfolding FileSize_distributeTests_def Smart_distributeTests_def
  using greedy_gap_two_shards [of tests "getFileSize statSync"]
    greedy_gap_two_shards [of tests "duration testHistory"]
  by (simp add: getFileSize_nonneg)

theorem two_shard_gap_witness:
  "list_all (\<lambda>p. 0 \<le> duration history_example p) [''a'', ''b'', ''c'', ''d''] \<and>
   Smart_distributeTests history_example [''a'', ''b'', ''c'', ''d''] \<lparr>index = 1, total' = 2\<rparr> = Inr [''a''] \<and>
   Smart_distributeTests history_example [''a'', ''b'', ''c'', ''d''] \<lparr>index = 2, total' = 2\<rparr> = Inr [''c'', ''b'', ''d''] \<and>
   \<bar>summed_cost (duration history_example) [''a''] - summed_cost (duration history_example) [''c'', ''b'', ''d'']\<bar>
        \<le> largest_cost (duration history_example) [''a'', ''b'', ''c'', ''d'']"
proof -
  have h: "\<forall>p\<in>set [''a'', ''b'', ''c'', ''d'']. 0 \<le> duration history_example p"
    by code_simp
  have r1: "Smart_distributeTests history_example [''a'', ''b'', ''c'', ''d''] \<lparr>index = 1, total' = 2\<rparr> = Inr [''a'']"
    by code_simp
  have r2: "Smart_distributeTests history_example [''a'', ''b'', ''c'', ''d''] \<lparr>index = 2, total' = 2\<rparr> = Inr [''c'', ''b'', ''d'']"
    by code_simp
  from two_shard_gap [of stat_example "[''a'', ''b'', ''c'', ''d'']" history_example] h r1 r2
  show ?thesis by (simp add: list_all_iff)
qed

text \<open>
  Claim C6 as stated, for every cost assignment, fails for \<open>SmartStrategy\<close>: the history is
  read as it is, and a negative duration is truthy, so it is the cost. With the history
  \<open>{a: -500, b: 200}\<close> and the tests \<open>a, b, c\<close> the order is \<open>c, b, a\<close> with costs
  \<open>1000, 200, -500\<close>; shard 1 gets \<open>[c]\<close> (summed cost \<open>1000\<close>), shard 2 gets \<open>[b, a]\<close> (summed
  cost \<open>-300\<close>), and the difference \<open>1300\<close> is more than the largest cost \<open>1000\<close>.
\<close>

theorem negative_duration_gap_counterexample:
  "Smart_distributeTests history_negative [''a'', ''b'', ''c''] \<lparr>index = 1, total' = 2\<rparr> = Inr [''c''] \<and>
   Smart_distributeTests history_negative [''a'', ''b'', ''c''] \<lparr>index = 2, total' = 2\<rparr>
     = Inr [''b'', ''a''] \<and>
   summed_cost (duration history_negative) [''c''] = 1000 \<and>
   summed_cost (duration history_negative) [''b'', ''a''] = - 300 \<and>
   largest_cost (duration history_negative) [''a'', ''b'', ''c''] = 1000 \<and>
   \<not> \<bar>summed_cost (duration history_negative) [''c'']
        - summed_cost (duration history_negative) [''b'', ''a'']\<bar>
       \<le> largest_cost (duration history_negative) [''a'', ''b'', ''c'']"
  by code_simp

subsection \<open>The shard chosen by the greedy loop\<close>

lemma minShard_prefix:
  "0 < k \<Longrightarrow> k \<le> length shards \<Longrightarrow>
     (let m = foldl (\<lambda>min i. if totalSize (shards ! i) < totalSize (shards ! min) then i else min)
                0 [0..<k]
      in m < k \<and> (\<forall>j<k. totalSize (shards ! m) \<le> totalSize (shards ! j)) \<and>
         (\<forall>j<m. totalSize (shards ! m) < totalSize (shards ! j)))"
proof (induction k)
  case 0
  then show ?case by simp
next
  case (Suc k)
  show ?case
  proof (cases "k = 0")
    case True
    then show ?thesis by simp
  next
    case False
    with Suc have IH:
      "let m = foldl (\<lambda>min i. if totalSize (shards ! i) < totalSize (shards ! min) then i else min)
                0 [0..<k]
       in m < k \<and> (\<forall>j<k. totalSize (shards ! m) \<le> totalSize (shards ! j)) \<and>
          (\<forall>j<m. totalSize (shards ! m) < totalSize (shards ! j))"
      by simp
    then show ?thesis
      by (auto simp: Let_def less_Suc_eq)
  qed
qed

lemma minShard_least:
  assumes "shards \<noteq> []"
  shows "minShard shards < length shards"
    and "\<forall>j<length shards. totalSize (shards ! minShard shards) \<le> totalSize (shards ! j)"
    and "\<forall>j<minShard shards. totalSize (shards ! minShard shards) < totalSize (shards ! j)"
  using minShard_prefix [of "length shards" shards] assms
  by (simp_all add: minShard_def Let_def)

text \<open>
  Claim C7. The loop gives each item to a shard whose running total is smallest, the one
  of lowest position among those. On the costs
  \<open>{a: 1000, b: 2000, c: 1500, d: 500, e: 3000, f: 800}\<close> with two shards, the size-balanced
  strategy orders the tests as \<open>e, b, c, a, f, d\<close> and returns \<open>[e, a, d]\<close> (summed cost
  \<open>4500\<close>) for shard 1 and \<open>[b, c, f]\<close> (summed cost \<open>4300\<close>) for shard 2.
\<close>

theorem size_balanced_scenario:
  "(shards \<noteq> [] \<longrightarrow>
      minShard shards < length shards \<and>
      (\<forall>j<length shards. totalSize (shards ! minShard shards) \<le> totalSize (shards ! j)) \<and>
      (\<forall>j<minShard shards. totalSize (shards ! minShard shards) < totalSize (shards ! j))) \<and>
   sort_key (\<lambda>f. - snd f) (map (\<lambda>path. (path, getFileSize stat_example path)) tests_example)
     = [(''e'', 3000), (''b'', 2000), (''c'', 1500), (''a'', 1000), (''f'', 800), (''d'', 500)] \<and>
   FileSize_distributeTests stat_example tests_example \<lparr>index = 1, total' = 2\<rparr> = Inr [''e'', ''a'', ''d''] \<and>
   FileSize_distributeTests stat_example tests_example \<lparr>index = 2, total' = 2\<rparr> = Inr [''b'', ''c'', ''f''] \<and>
   summed_cost (getFileSize stat_example) [''e'', ''a'', ''d''] = 4500 \<and>
   summed_cost (getFileSize stat_example) [''b'', ''c'', ''f''] = 4300"
proof -
  have "sort_key (\<lambda>f. - snd f) (map (\<lambda>path. (path, getFileSize stat_example path)) tests_example)
     = [(''e'', 3000), (''b'', 2000), (''c'', 1500), (''a'', 1000), (''f'', 800), (''d'', 500)]"
    by code_simp
  moreover have "FileSize_distributeTests stat_example tests_example \<lparr>index = 1, total' = 2\<rparr> = Inr [''e'', ''a'', ''d'']"
    by code_simp
  moreover have "FileSize_distributeTests stat_example tests_example \<lparr>index = 2, total' = 2\<rparr> = Inr [''b'', ''c'', ''f'']"
    by code_simp
  moreover have "summed_cost (getFileSize stat_example) [''e'', ''a'', ''d''] = 4500"
    by code_simp
  moreover have "summed_cost (getFileSize stat_example) [''b'', ''c'', ''f''] = 4300"
    by code_simp
  ultimately show ?thesis
    using minShard_least [of shards] by blast
qed

theorem size_balanced_scenario_witness:
  "[\<lparr>paths = [''e''], totalSize = 3000\<rparr>, \<lparr>paths = [''b''], totalSize = 2000\<rparr>,
    \<lparr>paths = [], totalSize = 2000\<rparr>] \<noteq> [] \<and>
   minShard [\<lparr>paths = [''e''], totalSize = 3000\<rparr>, \<lparr>paths = [''b''], totalSize = 2000\<rparr>,
    \<lparr>paths = [], totalSize = 2000\<rparr>] = 1"
proof -
  let ?shards = "[\<lparr>paths = [''e''], totalSize = 3000\<rparr>, \<lparr>paths = [''b''], totalSize = 2000\<rparr>,
    \<lparr>paths = [], totalSize = 2000\<rparr>]"
  have ne: "?shards \<noteq> []" by simp
  have "minShard ?shards = 1" by code_simp
  with ne size_balanced_scenario [of ?shards] show ?thesis by simp
qed

subsection \<open>The hash-based strategy depends on the path alone\<close>

lemma hash_selects_unique:
  assumes "1 \<le> n"
  shows "\<exists>i. 1 \<le> i \<and> i \<le> n \<and> (\<forall>j. hash_selects md5 \<lparr>index = j, total' = n\<rparr> path \<longleftrightarrow> j = i)"
proof -
  obtain h where h: "hashNum md5 path = Some h"
    using hashNum_Some by blast
  have "0 \<le> int h mod n \<and> int h mod n < n"
    using assms by simp
  then have "1 \<le> int h mod n + 1 \<and> int h mod n + 1 \<le> n" by simp
  moreover have "hash_selects md5 \<lparr>index = j, total' = n\<rparr> path \<longleftrightarrow> j = int h mod n + 1" for j
    using assms by (auto simp: hash_selects_def h js_rem_pos)
  ultimately show ?thesis by blast
qed

text \<open>
  Claim C9. \<open>HashBasedStrategy.distributeTests\<close> is a function of its arguments and of the
  digests of the paths alone: whether a path of the input is in the returned subset is
  decided by the path and the descriptor, whatever else the list holds; and for a fixed
  \<open>total \<ge> 1\<close> there is exactly one shard index on which a given path lands, in every
  list that has it.
\<close>

theorem HashBased_deterministic:
  "(path \<in> set (HashBased_distributeTests md5 tests shardInfo)
      \<longleftrightarrow> path \<in> set tests \<and> hash_selects md5 shardInfo path) \<and>
   (path \<in> set tests1 \<and> path \<in> set tests2 \<longrightarrow>
      (path \<in> set (HashBased_distributeTests md5 tests1 shardInfo)
         \<longleftrightarrow> path \<in> set (HashBased_distributeTests md5 tests2 shardInfo))) \<and>
   (1 \<le> n \<longrightarrow>
      (\<exists>i. 1 \<le> i \<and> i \<le> n \<and>
         (\<forall>ts j. path \<in> set ts \<longrightarrow>
            (path \<in> set (HashBased_distributeTests md5 ts \<lparr>index = j, total' = n\<rparr>) \<longleftrightarrow> j = i))))"
proof -
  have mem: "path \<in> set (HashBased_distributeTests md5 ts info)
               \<longleftrightarrow> path \<in> set ts \<and> hash_selects md5 info path" for ts info
    by (simp add: HashBased_distributeTests_def)
  have "\<exists>i. 1 \<le> i \<and> i \<le> n \<and>
         (\<forall>ts j. path \<in> set ts \<longrightarrow>
            (path \<in> set (HashBased_distributeTests md5 ts \<lparr>index = j, total' = n\<rparr>) \<longleftrightarrow> j = i))"
    if "1 \<le> n"
    using hash_selects_unique [OF that, of md5 path] by (auto simp: mem)
  then show ?thesis
    by (auto simp: mem)
qed

theorem HashBased_deterministic_witness:
  "''bb'' \<in> set [''bb'', ''a''] \<and> ''bb'' \<in> set [''c'', ''d'', ''bb''] \<and> (1::int) \<le> 3 \<and>
   HashBased_distributeTests md5_example [''bb'', ''a''] \<lparr>index = 3, total' = 3\<rparr> = [''bb''] \<and>
   ''bb'' \<in> set (HashBased_distributeTests md5_example [''c'', ''d'', ''bb''] \<lparr>index = 3, total' = 3\<rparr>)"
proof -
  have "HashBased_distributeTests md5_example [''bb'', ''a''] \<lparr>index = 3, total' = 3\<rparr> = [''bb'']"
    by code_simp
  then show ?thesis
    using HashBased_deterministic [of "''bb''" md5_example "[''bb'', ''a'']" "\<lparr>index = 3, total' = 3\<rparr>"
        "[''bb'', ''a'']" "[''c'', ''d'', ''bb'']" 3]
    by simp
qed

subsection \<open>A shard index outside \<open>1..total\<close>, and an empty test list\<close>

lemma RoundRobin_out_of_range:
  assumes "1 \<le> n" and "i < 1 \<or> n < i"
  shows "RoundRobin_distributeTests tests \<lparr>index = i, total' = n\<rparr> = []"
proof -
  have "int k mod n \<noteq> i - 1" for k
  proof -
    have "0 \<le> int k mod n \<and> int k mod n < n" using assms(1) by simp
    with assms(2) show ?thesis by auto
  qed
  then show ?thesis
    using assms(1) by (simp add: RoundRobin_distributeTests_def filter_indexed_def js_rem_pos)
qed

lemma HashBased_out_of_range:
  assumes "1 \<le> n" and "i < 1 \<or> n < i"
  shows "HashBased_distributeTests md5 tests \<lparr>index = i, total' = n\<rparr> = []"
proof -
  have "\<not> hash_selects md5 \<lparr>index = i, total' = n\<rparr> p" for p
    using hash_selects_unique [OF assms(1), of md5 p] assms(2) by auto
  then show ?thesis
    by (simp add: HashBased_distributeTests_def)
qed

lemma assign_loop_length:
  "assign_loop files shards = Inr shards' \<Longrightarrow> length shards' = length shards"
  by (induction files shards rule: assign_loop.induct) (auto simp: Let_def split: if_splits)

lemma greedy_out_of_range:
  assumes "i < 1 \<or> n < i"
  shows "greedy_distribute files \<lparr>index = i, total' = n\<rparr> = Inl TypeError"
proof (cases "assign_loop (sort_key (\<lambda>f. - snd f) files) (replicate (nat n) \<lparr>paths = [], totalSize = 0\<rparr>)")
  case (Inl e)
  then show ?thesis by (cases e) (simp add: greedy_distribute_def)
next
  case (Inr shards)
  then have "length shards = nat n"
    using assign_loop_length by fastforce
  with Inr assms show ?thesis
    by (auto simp: greedy_distribute_def)
qed

lemma distributeTests_empty:
  assumes "1 \<le> i" and "i \<le> n"
  shows "distributeTests md5 statSync s [] \<lparr>index = i, total' = n\<rparr> = Inr []"
proof (cases s)
  case RoundRobinStrategy
  then show ?thesis by (simp add: RoundRobin_distributeTests_def filter_indexed_def)
next
  case HashBasedStrategy
  then show ?thesis by (simp add: HashBased_distributeTests_def)
next
  case FileSizeStrategy
  then show ?thesis
    using assms by (simp add: FileSize_distributeTests_def greedy_distribute_def)
next
  case (SmartStrategy h)
  then show ?thesis
    using assms by (simp add: Smart_distributeTests_def greedy_distribute_def)
qed

text \<open>
  Claim C3. With an index outside \<open>1..total\<close> the two filtering strategies return the
  empty list, but \<open>FileSizeStrategy\<close> and \<open>SmartStrategy\<close> read \<open>.paths\<close> of the undefined
  \<open>shards[index - 1]\<close> and raise a \<open>TypeError\<close>, also when the test list is empty.
\<close>

theorem size_strategies_raise_out_of_range:
  "distributeTests md5_example stat_example RoundRobinStrategy tests_example \<lparr>index = 3, total' = 2\<rparr> = Inr [] \<and>
   distributeTests md5_example stat_example HashBasedStrategy tests_example \<lparr>index = 3, total' = 2\<rparr> = Inr [] \<and>
   distributeTests md5_example stat_example FileSizeStrategy tests_example \<lparr>index = 3, total' = 2\<rparr> = Inl TypeError \<and>
   distributeTests md5_example stat_example (SmartStrategy history_example) tests_example \<lparr>index = 0, total' = 2\<rparr> = Inl TypeError \<and>
   distributeTests md5_example stat_example FileSizeStrategy [] \<lparr>index = 3, total' = 2\<rparr> = Inl TypeError"
  by code_simp

section \<open>Properties of the coordinator\<close>

subsection \<open>One uninterrupted call of \<open>acquireShardLock\<close>\<close>

text \<open>
  An uninterrupted call fails exactly on a live lock, and it is the run of the machine
  of file operations, which needs at most four of them.
\<close>

declare acquireShardLock.simps [simp del]

lemma acquireShardLock_free:
  "locks shard = None \<Longrightarrow> acquireShardLock env shard locks = (True, locks(shard \<mapsto> own_lock env))"
  by (subst acquireShardLock.simps) (simp add: own_lock_def)

lemma acquireShardLock_eq:
  "acquireShardLock env shard locks =
     (if lock_is_live env (locks shard) then (False, locks)
      else (True, locks(shard \<mapsto> own_lock env)))"
proof (cases "locks shard")
  case None
  then show ?thesis by (simp add: acquireShardLock_free)
next
  case (Some l)
  have retry: "acquireShardLock env shard (locks(shard := None)) = (True, locks(shard \<mapsto> own_lock env))"
    by (simp add: acquireShardLock_free)
  show ?thesis
  proof (cases l)
    case Corrupted
    with Some retry show ?thesis
      by (subst acquireShardLock.simps) simp
  next
    case (LockData p ts h)
    with Some retry show ?thesis
      by (subst acquireShardLock.simps) simp
  qed
qed

lemma acquireShardLock_steps:
  "lock_steps env 4 (Create, locks shard) =
     (Done (fst (acquireShardLock env shard locks)), snd (acquireShardLock env shard locks) shard)"
proof (cases "locks shard")
  case None
  then show ?thesis
    by (simp add: acquireShardLock_eq own_lock_def numeral_eq_Suc)
next
  case (Some l)
  then show ?thesis
    by (cases l) (simp_all add: acquireShardLock_eq own_lock_def numeral_eq_Suc)
qed

subsection \<open>Retries of the exclusive create\<close>

lemma retry_inv_event:
  "retry_inv cfg n \<Longrightarrow> retry_inv (acquire_event env cfg e) (n + (if recreates e then 1 else 0))"
proof (cases cfg)
  case (fields c l k)
  assume inv: "retry_inv cfg n"
  show ?thesis
  proof (cases e)
    case Step
    show ?thesis
    proof (cases l)
      case None
      with inv fields Step show ?thesis by (cases c) auto
    next
      case (Some lf)
      with inv fields Step show ?thesis by (cases c; cases lf) auto
    qed
  next
    case (Interfere l')
    with inv fields show ?thesis by (cases c; cases l') auto
  qed
qed

lemma retry_inv_bound: "retry_inv cfg n \<Longrightarrow> snd (snd cfg) \<le> Suc n"
proof (cases cfg)
  case (fields c l k)
  assume "retry_inv cfg n"
  with fields show ?thesis by (cases c) (auto split: if_splits)
qed

lemma retry_inv_run:
  "retry_inv cfg n \<Longrightarrow>
     retry_inv (foldl (acquire_event env) cfg events) (n + length (filter recreates events))"
proof (induction events arbitrary: cfg n)
  case Nil
  then show ?case by simp
next
  case (Cons e events)
  from retry_inv_event [OF Cons.prems, of env e]
  have "retry_inv (acquire_event env cfg e) (n + (if recreates e then 1 else 0))" .
  from Cons.IH [OF this] show ?case
    by (cases "recreates e") (simp_all add: add.assoc)
qed

lemma lock_steps_done: "\<exists>b. fst (lock_steps env 4 (c, l)) = Done b"
proof (cases l)
  case None
  then show ?thesis by (cases c) (auto simp: numeral_eq_Suc)
next
  case (Some lf)
  then show ?thesis by (cases c; cases lf) (auto simp: numeral_eq_Suc)
qed

text \<open>
  Claim C5, as the code has it. Every retry of the exclusive create follows a deletion of
  the lock file by the call, and the retry runs the whole protocol again. So the number
  of exclusive creates of one call is at most one, plus one if a lock file exists at the
  start, plus the number of times other processes put a lock file back during the call:
  at most one retry when nobody interferes. From any point the call returns within
  four file operations once interference stops. A collision with a lock that is not
  stale and whose owner is alive returns "not claimed" without another retry.
\<close>

theorem acquire_retry_bound:
  "snd (snd (acquire_run env events l))
     \<le> 1 + (if l = None then 0 else 1) + length (filter recreates events) \<and>
   (\<exists>b. fst (lock_steps env 4 (c, l)) = Done b) \<and>
   (lock_is_live env (Some lf) \<longrightarrow> lock_steps env 2 (Create, Some lf) = (Done False, Some lf))"
proof -
  have "retry_inv (Create, l, 0) (if l = None then 0 else 1)"
    by simp
  from retry_inv_bound [OF retry_inv_run [OF this, of env events]]
  have "snd (snd (acquire_run env events l))
          \<le> 1 + (if l = None then 0 else 1) + length (filter recreates events)"
    by (simp add: acquire_run_def)
  moreover have "lock_steps env 2 (Create, Some lf) = (Done False, Some lf)" if "lock_is_live env (Some lf)"
    using that by (cases lf) (auto simp: numeral_eq_Suc)
  ultimately show ?thesis
    using lock_steps_done by blast
qed

theorem acquire_retry_bound_witness:
  "lock_is_live process1 (Some (LockData 102 999999 ''ci'')) \<and>
   acquire_run process1 [Step, Step, Step, Interfere (Some (LockData 102 999999 ''ci'')), Step, Step]
     (Some stale_lock) = (Done False, Some (LockData 102 999999 ''ci''), 2) \<and>
   (2::nat) \<le> 1 + (if Some stale_lock = None then 0 else 1)
      + length (filter recreates [Step, Step, Step, Interfere (Some (LockData 102 999999 ''ci'')), Step, Step]) \<and>
   lock_steps process1 2 (Create, Some (LockData 102 999999 ''ci''))
     = (Done False, Some (LockData 102 999999 ''ci''))"
proof -
  have live: "lock_is_live process1 (Some (LockData 102 999999 ''ci''))"
    by code_simp
  have run: "acquire_run process1 [Step, Step, Step, Interfere (Some (LockData 102 999999 ''ci'')), Step, Step]
     (Some stale_lock) = (Done False, Some (LockData 102 999999 ''ci''), 2)"
    by code_simp
  from acquire_retry_bound [of process1
      "[Step, Step, Step, Interfere (Some (LockData 102 999999 ''ci'')), Step, Step]"
      "Some stale_lock" Create "LockData 102 999999 ''ci''"] live run
  show ?thesis by simp
qed

text \<open>
  Claim C5 as stated fails: the retry is not limited to one. The call finds a stale lock,
  deletes it and retries; meanwhile a lock has reappeared whose owner is gone. The second
  collision does not end the call with "not claimed": the call deletes that lock too and
  claims the shard with its third exclusive create.
\<close>

theorem acquire_second_retry_counterexample:
  "acquire_run process1 [Step, Step, Step, Interfere (Some orphan_lock), Step, Step, Step, Step]
     (Some stale_lock) = (Done True, Some (own_lock process1), 3)"
  by code_simp

subsection \<open>Two processes claiming the same shard\<close>

text \<open>
  Claim C2. Two live processes call \<open>acquireShardLock\<close> for the same shard while a stale
  lock file is in place. Both fail to create, both read the stale lock, the first deletes
  it and creates its own lock, then the second deletes that lock and creates its own: both
  calls return \<open>true\<close>.
\<close>

theorem race_on_stale_lock:
  "race process1 process2 [True, False, True, False, True, True, False, False] (Some stale_lock)
     = (Done True, Done True, Some (own_lock process2))"
  by code_simp

subsection \<open>\<open>determineNextAvailableShard\<close>\<close>

lemma init_statuses_eq:
  "init_statuses ids statuses i =
     (if i \<in> set ids \<and> statuses i = None then Some (initial_entry i) else statuses i)"
  by (induction ids arbitrary: statuses) auto

lemma init_statuses_defined: "i \<in> set ids \<Longrightarrow> init_statuses ids statuses i \<noteq> None"
  by (simp add: init_statuses_eq)

lemma find_shard_Some:
  "find_shard env ids statuses fs = (Some j, fs') \<Longrightarrow>
     j \<in> set ids \<and>
     (\<exists>st. statuses j = Some st \<and> (status st = pending \<or> status st = failed) \<and>
        readStatus fs' =
          statuses(j \<mapsto> st\<lparr>status := running, pid := Some (process_pid env),
                              startTime := Some (Date_now env)\<rparr>))"
proof (induction ids arbitrary: fs)
  case Nil
  then show ?case by simp
next
  case (Cons i ids)
  show ?case
  proof (cases "statuses i")
    case None
    with Cons show ?thesis by auto
  next
    case (Some st)
    show ?thesis
    proof (cases "status st = pending \<or> status st = failed")
      case False
      with Some Cons show ?thesis by auto
    next
      case True
      show ?thesis
      proof (cases "lock_is_live env (lockFiles fs i)")
        case live: True
        with True Some Cons.prems have "find_shard env ids statuses fs = (Some j, fs')"
          by (auto simp: acquireShardLock_eq)
        from Cons.IH [OF this] show ?thesis by auto
      next
        case free: False
        with True Some Cons.prems show ?thesis
          by (auto simp: acquireShardLock_eq readStatus_def writeStatus_def)
      qed
    qed
  qed
qed

lemma find_shard_None:
  "find_shard env ids statuses fs = (None, fs') \<Longrightarrow> fs' = fs"
proof (induction ids arbitrary: fs)
  case Nil
  then show ?case by simp
next
  case (Cons i ids)
  then show ?case
    by (auto simp: acquireShardLock_eq split: option.splits if_splits)
qed

text \<open>A shard that can be claimed is returned unless an earlier one is.\<close>

lemma find_shard_claims:
  assumes "statuses i = Some st" and "status st = pending \<or> status st = failed"
    and "\<not> lock_is_live env (lockFiles fs i)"
  shows "\<exists>j. fst (find_shard env (pre @ i # post) statuses fs) = Some j \<and> j \<in> set (pre @ [i])"
proof (induction pre)
  case Nil
  from assms show ?case
    by (auto simp: acquireShardLock_eq)
next
  case (Cons k pre)
  then show ?case
    by (auto simp: acquireShardLock_eq split: option.splits)
qed

lemma find_shard_skips:
  assumes "\<forall>k\<in>set pre. \<exists>st. statuses k = Some st \<and> (status st = running \<or> status st = completed)"
  shows "find_shard env (pre @ ids) statuses fs = find_shard env ids statuses fs"
  using assms by (induction pre) auto

lemma determineNext_None:
  "determineNextAvailableShard env n fs = (None, fs') \<Longrightarrow> fs' = fs"
  unfolding determineNextAvailableShard_def by (rule find_shard_None)

lemma determineNext_Some:
  assumes "determineNextAvailableShard env n fs = (Some j, fs')"
  shows "1 \<le> j \<and> j \<le> n"
    and "status_of fs j = pending \<or> status_of fs j = failed"
    and "status_of fs' i = (if i = j then running else status_of fs i)"
proof -
  let ?statuses = "init_statuses [1..n] (readStatus fs)"
  from assms have "find_shard env [1..n] ?statuses fs = (Some j, fs')"
    by (simp add: determineNextAvailableShard_def)
  from find_shard_Some [OF this] obtain st where
    j: "j \<in> set [1..n]" and st: "?statuses j = Some st" and
    ok: "status st = pending \<or> status st = failed" and
    tab: "readStatus fs' = ?statuses(j \<mapsto> st\<lparr>status := running, pid := Some (process_pid env),
                                              startTime := Some (Date_now env)\<rparr>)"
    by blast
  from j show "1 \<le> j \<and> j \<le> n" by simp
  have same: "(case ?statuses k of None \<Rightarrow> pending | Some e \<Rightarrow> status e) = status_of fs k" for k
    by (auto simp: init_statuses_eq status_of_def initial_entry_def split: option.splits)
  from same [of j] st ok show "status_of fs j = pending \<or> status_of fs j = failed"
    by simp
  show "status_of fs' i = (if i = j then running else status_of fs i)"
    using same [of i] by (simp add: status_of_def tab)
qed

lemma markShardComplete_status:
  "status_of (markShardComplete env shard code fs) i =
     (if i = shard \<and> readStatus fs shard \<noteq> None
      then (if code = 0 then completed else failed) else status_of fs i)"
  by (auto simp: markShardComplete_def status_of_def readStatus_def writeStatus_def
        releaseShardLock_def Let_def split: option.splits)

lemma apply_op_result:
  assumes "apply_op n op fs = (r, fs')"
  shows "r = Some i \<longrightarrow> (status_of fs i = pending \<or> status_of fs i = failed) \<and> status_of fs' i = running"
proof (cases op)
  case (DetermineNext env)
  with assms show ?thesis
    using determineNext_Some [of env n fs i fs'] by auto
next
  case (MarkComplete env shard code)
  with assms show ?thesis by auto
qed

lemma apply_op_transition:
  assumes "apply_op n op fs = (r, fs')"
    and "case op of DetermineNext env \<Rightarrow> True | MarkComplete env shard code \<Rightarrow> status_of fs shard = running"
  shows "status_of fs' i = status_of fs i \<or> allowed_transition (status_of fs i) (status_of fs' i)"
proof (cases op)
  case (DetermineNext env)
  show ?thesis
  proof (cases r)
    case None
    with assms(1) DetermineNext show ?thesis
      using determineNext_None [of env n fs fs'] by simp
  next
    case (Some j)
    with assms(1) DetermineNext show ?thesis
      using determineNext_Some [of env n fs j fs'] by (auto simp: allowed_transition_def)
  qed
next
  case (MarkComplete env shard code)
  with assms have fs': "fs' = markShardComplete env shard code fs" and run: "status_of fs shard = running"
    by auto
  show ?thesis
  proof (cases "i = shard")
    case True
    have "status_of fs' shard = status_of fs shard \<or> status_of fs' shard = completed \<or>
          status_of fs' shard = failed"
      by (simp add: fs' markShardComplete_status)
    with True run show ?thesis
      by (auto simp: allowed_transition_def)
  next
    case False
    then show ?thesis
      by (simp add: fs' markShardComplete_status)
  qed
qed

lemma run_ops_length: "length (run_ops n ops fs) = length ops"
  by (induction ops arbitrary: fs) (auto split: prod.splits)

text \<open>
  Claim C8, as the code has it. In every sequence of the two operations, a shard returned
  by \<open>determineNextAvailableShard\<close> was \<open>pending\<close> or \<open>failed\<close> and is \<open>running\<close> afterwards, so
  no record goes from \<open>running\<close> to \<open>running\<close>. When \<open>markShardComplete\<close> is called only for
  shards that are \<open>running\<close>, every change of a status is one of \<open>pending \<rightarrow> running\<close>,
  \<open>running \<rightarrow> completed\<close>, \<open>running \<rightarrow> failed\<close>, \<open>failed \<rightarrow> running\<close>.
\<close>

theorem lifecycle_transitions:
  assumes "(s, r, s') \<in> set (run_ops totalShards ops fs)"
  shows "(r = Some i \<longrightarrow>
            (status_of s i = pending \<or> status_of s i = failed) \<and> status_of s' i = running) \<and>
         (marks_running_only totalShards ops fs \<longrightarrow>
            status_of s' i = status_of s i \<or> allowed_transition (status_of s i) (status_of s' i))"
  using assms
proof (induction ops arbitrary: fs)
  case Nil
  then show ?case by simp
next
  case (Cons op ops)
  obtain r1 fs1 where op: "apply_op totalShards op fs = (r1, fs1)"
    by (cases "apply_op totalShards op fs")
  from Cons.prems op have "(s, r, s') = (fs, r1, fs1) \<or> (s, r, s') \<in> set (run_ops totalShards ops fs1)"
    by simp
  then show ?case
  proof
    assume "(s, r, s') = (fs, r1, fs1)"
    with op have here: "apply_op totalShards op s = (r, s')" by simp
    from apply_op_result [OF here] apply_op_transition [OF here] show ?thesis
      using \<open>(s, r, s') = (fs, r1, fs1)\<close> by auto
  next
    assume "(s, r, s') \<in> set (run_ops totalShards ops fs1)"
    from Cons.IH [OF this] op show ?thesis by simp
  qed
qed

theorem lifecycle_transitions_witness:
  "marks_running_only 2 ops_example fs_empty \<and>
   run_ops 2 ops_example fs_empty ! 1 \<in> set (run_ops 2 ops_example fs_empty) \<and>
   status_of (fst (run_ops 2 ops_example fs_empty ! 1)) 1 = running \<and>
   status_of (snd (snd (run_ops 2 ops_example fs_empty ! 1))) 1 = failed \<and>
   allowed_transition running failed"
proof -
  have d: "marks_running_only 2 ops_example fs_empty" by code_simp
  have m: "run_ops 2 ops_example fs_empty ! 1 \<in> set (run_ops 2 ops_example fs_empty)"
    unfolding in_set_conv_nth run_ops_length by (auto simp: ops_example_def)
  have a: "status_of (fst (run_ops 2 ops_example fs_empty ! 1)) 1 = running" by code_simp
  have b: "status_of (snd (snd (run_ops 2 ops_example fs_empty ! 1))) 1 = failed" by code_simp
  from lifecycle_transitions [of "fst (run_ops 2 ops_example fs_empty ! 1)"
      "fst (snd (run_ops 2 ops_example fs_empty ! 1))"
      "snd (snd (run_ops 2 ops_example fs_empty ! 1))" 2 ops_example fs_empty 1] m d a b
  show ?thesis by simp
qed

text \<open>
  Claim C8 as stated fails: \<open>markShardComplete\<close> does not look at the current status.
  After the first claim has written the table, shard 2 is \<open>pending\<close>, and
  \<open>markShardComplete(2, 0)\<close> makes it \<open>completed\<close>.
\<close>

theorem pending_to_completed_counterexample:
  "status_of (snd (apply_op 2 (DetermineNext process1) fs_empty)) 2 = pending \<and>
   status_of (snd (apply_op 2 (MarkComplete process1 2 0)
                      (snd (apply_op 2 (DetermineNext process1) fs_empty)))) 2 = completed \<and>
   \<not> allowed_transition pending completed"
  by code_simp

subsection \<open>\<open>markShardComplete\<close>\<close>

lemma markShardComplete_entry:
  assumes "readStatus fs shard = Some st"
  shows "statusFile (markShardComplete env shard code fs) =
           Table ((readStatus fs)(shard \<mapsto> st\<lparr>status := (if code = 0 then completed else failed),
                                                  endTime := Some (Date_now env),
                                                  exitCode := Some code\<rparr>))"
    and "lockFiles (markShardComplete env shard code fs) = (lockFiles fs)(shard := None)"
  using assms by (simp_all add: markShardComplete_def writeStatus_def releaseShardLock_def)

lemma failed_shard_reclaimable:
  assumes "readStatus fs shard = Some st" and "code \<noteq> 0" and "1 \<le> shard" and "shard \<le> n"
  shows "\<exists>j. fst (determineNextAvailableShard env' n (markShardComplete env shard code fs)) = Some j \<and>
           1 \<le> j \<and> j \<le> shard"
    and "(\<forall>j. 1 \<le> j \<and> j < shard \<longrightarrow> status_of fs j = running \<or> status_of fs j = completed) \<Longrightarrow>
           fst (determineNextAvailableShard env' n (markShardComplete env shard code fs)) = Some shard"
proof -
  let ?fs = "markShardComplete env shard code fs"
  let ?statuses = "init_statuses [1..n] (readStatus ?fs)"
  let ?st = "st\<lparr>status := failed, endTime := Some (Date_now env), exitCode := Some code\<rparr>"
  have tab: "readStatus ?fs = (readStatus fs)(shard \<mapsto> ?st)"
    using markShardComplete_entry(1) [OF assms(1), of env code] assms(2) by (simp add: readStatus_def)
  have entry: "?statuses shard = Some ?st"
    by (simp add: init_statuses_eq tab)
  have free: "\<not> lock_is_live env' (lockFiles ?fs shard)"
    by (simp add: markShardComplete_entry(2) [OF assms(1)])
  have split: "[1..n] = [1..shard - 1] @ shard # [shard + 1..n]"
    using assms(3,4) by (rule upto_split3)
  have "\<exists>j. fst (find_shard env' ([1..shard - 1] @ shard # [shard + 1..n]) ?statuses ?fs) = Some j \<and>
          j \<in> set ([1..shard - 1] @ [shard])"
    by (rule find_shard_claims [where st = ?st]) (simp_all add: entry free)
  then obtain j where "fst (find_shard env' [1..n] ?statuses ?fs) = Some j" "j \<in> set ([1..shard - 1] @ [shard])"
    unfolding split [symmetric] by auto
  then show "\<exists>j. fst (determineNextAvailableShard env' n ?fs) = Some j \<and> 1 \<le> j \<and> j \<le> shard"
    using assms(3) by (auto simp: determineNextAvailableShard_def)
  assume busy: "\<forall>j. 1 \<le> j \<and> j < shard \<longrightarrow> status_of fs j = running \<or> status_of fs j = completed"
  have "\<exists>e. ?statuses k = Some e \<and> (status e = running \<or> status e = completed)"
    if "k \<in> set [1..shard - 1]" for k
  proof -
    from that have k: "1 \<le> k" "k < shard" by auto
    with busy have "status_of fs k = running \<or> status_of fs k = completed" by blast
    then obtain e where "readStatus fs k = Some e" "status e = running \<or> status e = completed"
      by (auto simp: status_of_def split: option.splits)
    with k show ?thesis
      by (simp add: init_statuses_eq tab)
  qed
  then have "find_shard env' ([1..shard - 1] @ shard # [shard + 1..n]) ?statuses ?fs
               = find_shard env' (shard # [shard + 1..n]) ?statuses ?fs"
    by (intro find_shard_skips) blast
  also have "fst \<dots> = Some shard"
    using entry free by (simp add: acquireShardLock_eq)
  finally show "fst (determineNextAvailableShard env' n ?fs) = Some shard"
    by (simp add: determineNextAvailableShard_def split)
qed

lemma apply_op_keeps_completed:
  assumes "status_of fs shard = completed" and "\<not> marks_shard shard op"
    and "apply_op n op fs = (r, fs')"
  shows "r \<noteq> Some shard \<and> status_of fs' shard = completed"
proof (cases op)
  case (DetermineNext env)
  show ?thesis
  proof (cases r)
    case None
    with assms DetermineNext show ?thesis
      using determineNext_None [of env n fs fs'] by simp
  next
    case (Some j)
    with assms DetermineNext show ?thesis
      using determineNext_Some [of env n fs j fs'] by auto
  qed
next
  case (MarkComplete env k code)
  with assms show ?thesis
    by (auto simp: markShardComplete_status)
qed

lemma completed_never_returned:
  assumes "status_of fs shard = completed" and "\<forall>op\<in>set ops. \<not> marks_shard shard op"
    and "(s, r, s') \<in> set (run_ops n ops fs)"
  shows "r \<noteq> Some shard"
  using assms
proof (induction ops arbitrary: fs)
  case Nil
  then show ?case by simp
next
  case (Cons op ops)
  obtain r1 fs1 where op: "apply_op n op fs = (r1, fs1)"
    by (cases "apply_op n op fs")
  from Cons.prems(1,2) op have keep: "r1 \<noteq> Some shard \<and> status_of fs1 shard = completed"
    using apply_op_keeps_completed [of fs shard op n r1 fs1] by simp
  from Cons.prems(3) op have "(s, r, s') = (fs, r1, fs1) \<or> (s, r, s') \<in> set (run_ops n ops fs1)"
    by simp
  then show ?case
  proof
    assume "(s, r, s') = (fs, r1, fs1)"
    with keep show ?thesis by simp
  next
    assume "(s, r, s') \<in> set (run_ops n ops fs1)"
    with Cons.IH [of fs1] keep Cons.prems(2) show ?thesis by simp
  qed
qed

text \<open>
  Claim C4, as the code has it. When the shard has a record in the persisted table,
  \<open>markShardComplete\<close> writes the table with the status \<open>completed\<close> for exit code \<open>0\<close> and
  \<open>failed\<close> otherwise, with the end time and the exit code, and deletes the lock file of
  the shard. After a nonzero exit code the next \<open>determineNextAvailableShard\<close> returns the
  shard or a lower one, and the shard itself when every lower shard is \<open>running\<close> or
  \<open>completed\<close>. After exit code \<open>0\<close> no later \<open>determineNextAvailableShard\<close> returns the shard,
  in any sequence of operations that does not mark the shard again.
\<close>

theorem markShardComplete_recorded:
  assumes "readStatus fs shard = Some st"
  shows "statusFile (markShardComplete env shard code fs) =
           Table ((readStatus fs)(shard \<mapsto> st\<lparr>status := (if code = 0 then completed else failed),
                                                  endTime := Some (Date_now env),
                                                  exitCode := Some code\<rparr>)) \<and>
         lockFiles (markShardComplete env shard code fs) = (lockFiles fs)(shard := None) \<and>
         (code \<noteq> 0 \<and> 1 \<le> shard \<and> shard \<le> totalShards \<longrightarrow>
            (\<exists>j. fst (determineNextAvailableShard env' totalShards (markShardComplete env shard code fs))
                    = Some j \<and> 1 \<le> j \<and> j \<le> shard) \<and>
            ((\<forall>j. 1 \<le> j \<and> j < shard \<longrightarrow> status_of fs j = running \<or> status_of fs j = completed) \<longrightarrow>
               fst (determineNextAvailableShard env' totalShards (markShardComplete env shard code fs))
                 = Some shard)) \<and>
         (code = 0 \<and> (\<forall>op\<in>set ops. \<not> marks_shard shard op) \<longrightarrow>
            (\<forall>(s, r, s')\<in>set (run_ops totalShards ops (markShardComplete env shard code fs)).
               r \<noteq> Some shard))"
proof -
  have "status_of (markShardComplete env shard code fs) shard = completed" if "code = 0"
    using that assms by (simp add: markShardComplete_status)
  then have "\<forall>(s, r, s')\<in>set (run_ops totalShards ops (markShardComplete env shard code fs)).
               r \<noteq> Some shard"
    if "code = 0" "\<forall>op\<in>set ops. \<not> marks_shard shard op"
    using that completed_never_returned by blast
  with markShardComplete_entry [OF assms, of env code]
    failed_shard_reclaimable [OF assms, of code totalShards env' env]
  show ?thesis by blast
qed

theorem markShardComplete_recorded_witness:
  "readStatus fs_two 2 = Some (running_entry 2 102) \<and>
   readStatus fs_two 1 = Some (running_entry 1 101) \<and>
   status_of fs_two 1 = running \<and>
   lockFiles (markShardComplete process2 2 1 fs_two) 2 = None \<and>
   fst (determineNextAvailableShard process1 2 (markShardComplete process2 2 1 fs_two)) = Some 2 \<and>
   fst (snd (run_ops 2 [DetermineNext process2, DetermineNext process1]
               (markShardComplete process1 1 0 fs_two) ! 1)) \<noteq> Some 1"
proof -
  have e2: "readStatus fs_two 2 = Some (running_entry 2 102)" by code_simp
  have e1: "readStatus fs_two 1 = Some (running_entry 1 101)" by code_simp
  have r1: "status_of fs_two 1 = running" by code_simp
  have lower: "\<forall>j. 1 \<le> j \<and> j < (2::int) \<longrightarrow> status_of fs_two j = running \<or> status_of fs_two j = completed"
  proof (intro allI impI)
    fix j :: int assume "1 \<le> j \<and> j < 2"
    then have "j = 1" by simp
    with r1 show "status_of fs_two j = running \<or> status_of fs_two j = completed" by simp
  qed
  have others: "\<forall>op\<in>set [DetermineNext process2, DetermineNext process1]. \<not> marks_shard 1 op"
    by simp
  from markShardComplete_recorded [OF e2, of process2 1 2 process1 "[]"] lower
  have "lockFiles (markShardComplete process2 2 1 fs_two) 2 = None"
    and "fst (determineNextAvailableShard process1 2 (markShardComplete process2 2 1 fs_two)) = Some 2"
    by simp_all
  moreover from markShardComplete_recorded [OF e1, of process1 0 2 process1
      "[DetermineNext process2, DetermineNext process1]"] others
  have "\<forall>(s, r, s')\<in>set (run_ops 2 [DetermineNext process2, DetermineNext process1]
                         (markShardComplete process1 1 0 fs_two)). r \<noteq> Some 1"
    by simp
  moreover have "run_ops 2 [DetermineNext process2, DetermineNext process1]
                   (markShardComplete process1 1 0 fs_two) ! 1
                 \<in> set (run_ops 2 [DetermineNext process2, DetermineNext process1]
                          (markShardComplete process1 1 0 fs_two))"
    unfolding in_set_conv_nth run_ops_length by auto
  ultimately show ?thesis
    using e1 e2 r1 by (auto simp: case_prod_unfold)
qed

text \<open>
  Claim C4 as stated fails for a shard without a record: in a fresh coordination
  directory \<open>markShardComplete(1, 0)\<close> writes nothing, shard 1 is not \<open>completed\<close>, and the next
  \<open>determineNextAvailableShard\<close> returns shard 1. And "never returned" holds only until the
  shard is marked again: a \<open>completed\<close> shard marked with a nonzero exit code is \<open>failed\<close>
  and is returned by the next call.
\<close>

theorem markShardComplete_unknown_shard_counterexample:
  "status_of (markShardComplete process1 1 0 fs_empty) 1 = pending \<and>
   statusFile (markShardComplete process1 1 0 fs_empty) = Missing \<and>
   fst (determineNextAvailableShard process2 1 (markShardComplete process1 1 0 fs_empty)) = Some 1 \<and>
   status_of (markShardComplete process1 1 0 fs_two) 1 = completed \<and>
   fst (determineNextAvailableShard process2 2
          (markShardComplete process1 1 1 (markShardComplete process1 1 0 fs_two))) = Some 1"
proof -
  have "status_of (markShardComplete process1 1 0 fs_empty) 1 = pending"
    by code_simp
  moreover have "statusFile (markShardComplete process1 1 0 fs_empty) = Missing"
    by (simp add: markShardComplete_def readStatus_def fs_empty_def)
  moreover have "fst (determineNextAvailableShard process2 1 (markShardComplete process1 1 0 fs_empty)) = Some 1"
    by code_simp
  moreover have "status_of (markShardComplete process1 1 0 fs_two) 1 = completed"
    by code_simp
  moreover have "fst (determineNextAvailableShard process2 2
          (markShardComplete process1 1 1 (markShardComplete process1 1 0 fs_two))) = Some 1"
    by code_simp
  ultimately show ?thesis by simp
qed

text \<open>
  Claim C10. When the shard has no record in the persisted status table (also when the
  status file is missing or cannot be parsed), \<open>markShardComplete\<close> changes nothing: the
  table is not written, no record is created and no lock file is deleted. With a record,
  the lock file of the shard is deleted.
\<close>

theorem markShardComplete_without_entry:
  "(readStatus fs shard = None \<longrightarrow> markShardComplete env shard code fs = fs) \<and>
   (readStatus fs shard \<noteq> None \<longrightarrow> lockFiles (markShardComplete env shard code fs) shard = None)"
  by (auto simp: markShardComplete_def writeStatus_def releaseShardLock_def)

theorem markShardComplete_without_entry_witness:
  "readStatus fs_locked3 3 = None \<and>
   markShardComplete process1 3 0 fs_locked3 = fs_locked3 \<and>
   lockFiles (markShardComplete process1 3 0 fs_locked3) 3 = Some (LockData 101 999000 ''ci'') \<and>
   readStatus fs_locked3 1 \<noteq> None \<and>
   lockFiles (markShardComplete process1 1 0 fs_locked3) 1 = None"
proof -
  have none: "readStatus fs_locked3 3 = None" by code_simp
  have some: "readStatus fs_locked3 1 \<noteq> None" by code_simp
  from markShardComplete_without_entry [of fs_locked3 3 process1 0] none
  have same: "markShardComplete process1 3 0 fs_locked3 = fs_locked3" by simp
  have "lockFiles fs_locked3 3 = Some (LockData 101 999000 ''ci'')" by code_simp
  with same have "lockFiles (markShardComplete process1 3 0 fs_locked3) 3 = Some (LockData 101 999000 ''ci'')"
    by simp
  moreover from markShardComplete_without_entry [of fs_locked3 1 process1 0] some
  have "lockFiles (markShardComplete process1 1 0 fs_locked3) 1 = None" by simp
  ultimately show ?thesis using none some same by simp
qed

end
